theory Spec2Isabelle
  imports Main
begin

section \<open>The streamed transport\<close>

text \<open>
  The response body of \<^verbatim>\<open>invoke_endpoint_with_response_stream\<close> is an iterable of
  event dictionaries. The reader only asks whether an event has the key
  \<^verbatim>\<open>"PayloadPart"\<close>; if so it reads \<^verbatim>\<open>chunk["PayloadPart"]["Bytes"]\<close>, otherwise the
  event is logged and skipped. Bytes are modelled as \<^typ>\<open>char\<close> (8 bits each).
\<close>

type_synonym bytes = "char list"

abbreviation newline :: char where "newline \<equiv> CHR 0x0A"

datatype chunk = PayloadPart bytes | UnknownEvent string

text \<open>
  Pulling from the transport with \<^verbatim>\<open>next(self.byte_iterator)\<close> yields a chunk, raises
  an exception (a network failure, carried here by its message), or raises
  \<^verbatim>\<open>StopIteration\<close> when the stream is exhausted (the empty list).
\<close>

datatype item = Yield chunk | Throw string

text \<open>
  \<^verbatim>\<open>time.monotonic()\<close>: the k-th reading of the clock is \<open>clk k\<close>; every function that
  reads the clock takes the number of readings made so far and returns the new count.
  Timestamps are abstracted to integers.
\<close>

type_synonym clock = "nat \<Rightarrow> int"

section \<open>LineIterator\<close>

record LineIterator =
  byte_iterator :: "item list"
  buffer :: bytes
  read_pos :: nat
  ttft :: int

definition LineIterator_init :: "item list \<Rightarrow> LineIterator" where
  "LineIterator_init stream =
     \<lparr>byte_iterator = stream, buffer = [], read_pos = 0, ttft = 0\<rparr>"

text \<open>\<^verbatim>\<open>BytesIO.readline\<close> from the current position: up to and including the first
  newline, or to the end of the buffer.\<close>

fun readline :: "bytes \<Rightarrow> bytes" where
  "readline [] = []"
| "readline (c # cs) = (if c = newline then [c] else c # readline cs)"

text \<open>What one call of \<^verbatim>\<open>__next__\<close> gives its caller: a triple
  \<open>(line, ttft, time.monotonic())\<close>, \<^verbatim>\<open>StopIteration\<close>, or an exception of the transport.\<close>

datatype outcome = Line bytes int int | StopIteration | Raised string

text \<open>
  \<^verbatim>\<open>LineIterator.__next__\<close>, the \<^verbatim>\<open>while True\<close> loop as a recursive function; each
  \<^verbatim>\<open>continue\<close> and the fall-through after \<^verbatim>\<open>buffer.write\<close> is a recursive call. The value
  \<open>None\<close> stands for a call that never returns.
\<close>

partial_function (option) LineIterator_next ::
  "clock \<Rightarrow> LineIterator \<Rightarrow> nat \<Rightarrow> (outcome \<times> LineIterator \<times> nat) option" where
  "LineIterator_next clk self n =
    (let line = readline (drop (read_pos self) (buffer self)) in
     if line \<noteq> [] \<and> last line = newline then
       (let (self1, n1) =
              (if ttft self = 0 then (self\<lparr>ttft := clk n\<rparr>, Suc n) else (self, n));
            self2 = self1\<lparr>read_pos := read_pos self1 + length line\<rparr>
        in Some (Line (butlast line) (ttft self2) (clk n1), self2, Suc n1))
     else if line \<noteq> [] \<and> int (read_pos self) = int (length (buffer self)) - 1 then
       (let self1 = self\<lparr>read_pos := read_pos self + 1\<rparr>
        in Some (Line line (ttft self1) (clk n), self1, Suc n))
     else
       (case byte_iterator self of
          [] \<Rightarrow>
            if read_pos self < length (buffer self) then LineIterator_next clk self n
            else Some (StopIteration, self, n)
        | Throw e # rest \<Rightarrow> Some (Raised e, self\<lparr>byte_iterator := rest\<rparr>, n)
        | Yield chunk # rest \<Rightarrow>
            (let self1 = self\<lparr>byte_iterator := rest\<rparr> in
             case chunk of
               UnknownEvent _ \<Rightarrow> LineIterator_next clk self1 n
             | PayloadPart bs \<Rightarrow>
                 LineIterator_next clk (self1\<lparr>buffer := buffer self1 @ bs\<rparr>) n)))"

text \<open>
  Iterating the reader to exhaustion (\<^verbatim>\<open>for triple in LineIterator(stream)\<close>): the
  triples produced, and how the iteration ended (\<open>None\<close> for \<^verbatim>\<open>StopIteration\<close>,
  \<open>Some e\<close> for an exception that propagates to the caller).
\<close>

partial_function (option) drain ::
  "clock \<Rightarrow> LineIterator \<Rightarrow> nat \<Rightarrow> ((bytes \<times> int \<times> int) list \<times> string option) option" where
  "drain clk self n =
    Option.bind (LineIterator_next clk self n) (\<lambda>(res, self', n').
      case res of
        StopIteration \<Rightarrow> Some ([], None)
      | Raised e \<Rightarrow> Some ([], Some e)
      | Line l tf tm \<Rightarrow>
          Option.bind (drain clk self' n') (\<lambda>(ls, e). Some ((l, tf, tm) # ls, e)))"

section \<open>The request driver\<close>

record chat_message =
  role :: string
  content :: string

record 'v wire_message =
  inputs :: "chat_message list list"
  parameters :: "string \<rightharpoonup> 'v"

record 'v RequestConfig =
  prompt :: "string \<times> nat"
  model :: string
  sampling_params :: "string \<rightharpoonup> 'v"

record RequestMetrics =
  inter_token_times :: "int list"
  num_prompt_tokens :: nat
  num_output_tokens :: nat
  error_code :: "int option"
  error_msg :: "string option"

text \<open>
  What the driver calls outside this file: the process environment, the SageMaker
  runtime call (which raises, \<open>Inl\<close> of the message, or returns the event stream of
  \<^verbatim>\<open>response["Body"]\<close>), \<^verbatim>\<open>json.loads\<close> followed by the lookup
  \<^verbatim>\<open>resp[0]["generation"]["content"]\<close> (either may raise), the tokenizer of the base
  class, and the clock.
\<close>

record 'v externals =
  environ :: "string \<rightharpoonup> string"
  invoke_endpoint_with_response_stream :: "string \<Rightarrow> 'v wire_message \<Rightarrow> string + item list"
  loads_content :: "bytes \<Rightarrow> string + string"
  get_token_length :: "string \<Rightarrow> string + nat"
  monotonic :: clock

text \<open>The outbound activity of one call, in order: the construction of the boto3 client
  and the invocation of the endpoint with its body.\<close>

datatype 'v action = Client "string option" | InvokeEndpoint string "'v wire_message"

text \<open>\<^verbatim>\<open>not os.environ.get(name)\<close>: the variable is absent, or set to the empty string.\<close>

definition unset :: "(string \<rightharpoonup> string) \<Rightarrow> string \<Rightarrow> bool" where
  "unset env name = (case env name of None \<Rightarrow> True | Some v \<Rightarrow> v = [])"

text \<open>Lines 45 to 47: the in-place renaming in the caller's dictionary.\<close>

definition rename_max_tokens :: "(string \<rightharpoonup> 'v) \<Rightarrow> (string \<rightharpoonup> 'v)" where
  "rename_max_tokens sp =
    (case sp ''max_tokens'' of
       None \<Rightarrow> sp
     | Some v \<Rightarrow> (sp(''max_new_tokens'' \<mapsto> v))(''max_tokens'' := None))"

text \<open>Lines 49 to 59: the wire payload; \<^verbatim>\<open>{**sampling_params}\<close> copies the dictionary.\<close>

definition build_message :: "string \<Rightarrow> (string \<rightharpoonup> 'v) \<Rightarrow> 'v wire_message" where
  "build_message prompt_text sp =
    \<lparr>inputs = [[\<lparr>role = ''system'', content = []\<rparr>,
                 \<lparr>role = ''user'', content = prompt_text\<rparr>]],
     parameters = sp\<rparr>"

text \<open>
  Lines 78 to 84: the \<^verbatim>\<open>for\<close> loop over the reader. It ends when the reader raises
  \<^verbatim>\<open>StopIteration\<close> (first component \<open>None\<close>) or when an exception leaves the loop
  (\<open>Some e\<close>); the lists are returned as the loop left them, since
  \<^verbatim>\<open>inter_token_times.append\<close> updates the list in place.
\<close>

partial_function (option) consume_lines ::
  "clock \<Rightarrow> LineIterator \<Rightarrow> nat \<Rightarrow> bytes \<Rightarrow> int list \<Rightarrow> int \<Rightarrow>
   (string option \<times> bytes \<times> int list \<times> nat) option" where
  "consume_lines clk reader n json_byte timings most_recent =
    (case LineIterator_next clk reader n of
       None \<Rightarrow> None
     | Some (res, reader', n') \<Rightarrow>
         (case res of
            StopIteration \<Rightarrow> Some (None, json_byte, timings, n')
          | Raised e \<Rightarrow> Some (Some e, json_byte, timings, n')
          | Line l tf tm \<Rightarrow>
              consume_lines clk reader' (Suc (Suc n')) (json_byte @ l)
                (timings @ [clk n' - most_recent]) (clk (Suc n'))))"

text \<open>
  \<^verbatim>\<open>SageMakerClient.send_llm_request\<close>. The result is a \<^verbatim>\<open>ValueError\<close> (\<open>Inl\<close> of its
  message) or the returned pair; with it come the caller's request configuration as the
  call left it, the outbound activity, and the clock count.
\<close>

definition send_llm_request ::
  "'v externals \<Rightarrow> 'v RequestConfig \<Rightarrow> nat \<Rightarrow>
   ((string + RequestMetrics \<times> string) \<times> 'v RequestConfig \<times> 'v action list \<times> nat) option" where
  "send_llm_request ext request_config n =
    (if unset (environ ext) ''AWS_ACCESS_KEY_ID'' then
       Some (Inl ''AWS_ACCESS_KEY_ID must be set.'', request_config, [], n)
     else if unset (environ ext) ''AWS_SECRET_ACCESS_KEY'' then
       Some (Inl ''AWS_SECRET_ACCESS_KEY must be set.'', request_config, [], n)
     else if unset (environ ext) ''AWS_REGION_NAME'' then
       Some (Inl ''AWS_REGION_NAME must be set.'', request_config, [], n)
     else
       (let (prompt_text, prompt_len) = prompt request_config;
            sm_runtime = Client (environ ext ''AWS_REGION_NAME'');
            request_config1 = request_config
              \<lparr>sampling_params := rename_max_tokens (sampling_params request_config)\<rparr>;
            message = build_message prompt_text (sampling_params request_config1);
            most_recent = monotonic ext n;
            actions = [sm_runtime, InvokeEndpoint (model request_config) message];
            finish = (\<lambda>timings tokens_received code msg generated_text n'.
              Some (Inr (\<lparr>inter_token_times = timings, num_prompt_tokens = prompt_len,
                          num_output_tokens = tokens_received, error_code = code,
                          error_msg = msg\<rparr>, generated_text),
                    request_config1, actions, n'))
        in case invoke_endpoint_with_response_stream ext (model request_config) message of
             Inl e \<Rightarrow> finish [] 0 (Some 500) (Some e) [] (Suc n)
           | Inr event_stream \<Rightarrow>
               (case consume_lines (monotonic ext) (LineIterator_init event_stream) (Suc n)
                       [] [] most_recent of
                  None \<Rightarrow> None
                | Some (raised, json_byte, timings, n') \<Rightarrow>
                    (case raised of
                       Some e \<Rightarrow> finish timings 0 (Some 500) (Some e) [] n'
                     | None \<Rightarrow>
                         (case loads_content ext json_byte of
                            Inl e \<Rightarrow> finish timings 0 (Some 500) (Some e) [] n'
                          | Inr generated_text \<Rightarrow>
                              (case get_token_length ext generated_text of
                                 Inl e \<Rightarrow> finish timings 0 (Some 500) (Some e) generated_text n'
                               | Inr tokens_received \<Rightarrow>
                                   finish timings tokens_received None None generated_text n'))))))"

section \<open>Streams as byte sequences\<close>

text \<open>The bytes a chunk contributes, and the bytes of a whole chunk sequence.\<close>

fun payload_bytes :: "chunk \<Rightarrow> bytes" where
  "payload_bytes (PayloadPart bs) = bs"
| "payload_bytes (UnknownEvent _) = []"

definition stream_bytes :: "chunk list \<Rightarrow> bytes" where
  "stream_bytes cs = concat (map payload_bytes cs)"

text \<open>Lines with the delimiter put back after each.\<close>

definition with_delimiters :: "bytes list \<Rightarrow> bytes" where
  "with_delimiters ls = concat (map (\<lambda>l. l @ [newline]) ls)"

text \<open>
  The newline-terminated lines of a byte sequence, and the unfinished bytes after its last
  newline.
\<close>

function complete_lines :: "bytes \<Rightarrow> bytes list" where
  "complete_lines p =
    (if newline \<in> set p then
       takeWhile (\<lambda>c. c \<noteq> newline) p # complete_lines (tl (dropWhile (\<lambda>c. c \<noteq> newline) p))
     else [])"
  by pat_completeness auto
termination
proof (relation "measure length")
  show "wf (measure length)" by simp
next
  fix p :: bytes
  assume "newline \<in> set p"
  then have "dropWhile (\<lambda>c. c \<noteq> newline) p \<noteq> []" by simp
  then have "length (tl (dropWhile (\<lambda>c. c \<noteq> newline) p)) < length (dropWhile (\<lambda>c. c \<noteq> newline) p)"
    by (cases "dropWhile (\<lambda>c. c \<noteq> newline) p") auto
  also have "\<dots> \<le> length p" by (rule length_dropWhile_le)
  finally show "(tl (dropWhile (\<lambda>c. c \<noteq> newline) p), p) \<in> measure length" by simp
qed

function unfinished :: "bytes \<Rightarrow> bytes" where
  "unfinished p =
    (if newline \<in> set p then unfinished (tl (dropWhile (\<lambda>c. c \<noteq> newline) p)) else p)"
  by pat_completeness auto
termination
proof (relation "measure length")
  show "wf (measure length)" by simp
next
  fix p :: bytes
  assume "newline \<in> set p"
  then have "dropWhile (\<lambda>c. c \<noteq> newline) p \<noteq> []" by simp
  then have "length (tl (dropWhile (\<lambda>c. c \<noteq> newline) p)) < length (dropWhile (\<lambda>c. c \<noteq> newline) p)"
    by (cases "dropWhile (\<lambda>c. c \<noteq> newline) p") auto
  also have "\<dots> \<le> length p" by (rule length_dropWhile_le)
  finally show "(tl (dropWhile (\<lambda>c. c \<noteq> newline) p), p) \<in> measure length" by simp
qed

text \<open>
  No chunk boundary leaves exactly one unfinished byte: before each chunk of \<open>cs\<close> is
  pulled, the bytes received so far (\<open>received\<close>, then each chunk in turn) do not end
  with a single byte after their last newline. The end of the stream is not a boundary.
\<close>

fun no_lone_byte :: "bytes \<Rightarrow> chunk list \<Rightarrow> bool" where
  "no_lone_byte received [] = True"
| "no_lone_byte received (c # cs) =
     (length (unfinished received) \<noteq> 1 \<and> no_lone_byte (received @ payload_bytes c) cs)"

text \<open>
  The lines of an iteration as a total function of the unconsumed bytes and the remaining
  stream; \<open>None\<close> where the reader never returns. Theorem \<open>drain_reader_lines\<close>
  proves that it is what \<open>drain\<close> computes.
\<close>

function reader_lines :: "bytes \<Rightarrow> item list \<Rightarrow> (bytes list \<times> string option) option" where
  "reader_lines p its =
    (if newline \<in> set p then
       map_option (apfst (Cons (takeWhile (\<lambda>c. c \<noteq> newline) p)))
         (reader_lines (tl (dropWhile (\<lambda>c. c \<noteq> newline) p)) its)
     else if length p = 1 then map_option (apfst (Cons p)) (reader_lines [] its)
     else
       (case its of
          [] \<Rightarrow> if p = [] then Some ([], None) else None
        | Throw e # rest \<Rightarrow> Some ([], Some e)
        | Yield (UnknownEvent _) # rest \<Rightarrow> reader_lines p rest
        | Yield (PayloadPart bs) # rest \<Rightarrow> reader_lines (p @ bs) rest))"
  by pat_completeness auto
termination
proof (relation "measures [\<lambda>(p, its). length its, \<lambda>(p, its). length p]")
  show "wf (measures [\<lambda>(p, its). length its, \<lambda>(p, its). length p])" by simp
next
  fix p :: bytes and its :: "item list"
  assume "newline \<in> set p"
  then have "dropWhile (\<lambda>c. c \<noteq> newline) p \<noteq> []" by simp
  then have "length (tl (dropWhile (\<lambda>c. c \<noteq> newline) p)) < length (dropWhile (\<lambda>c. c \<noteq> newline) p)"
    by (cases "dropWhile (\<lambda>c. c \<noteq> newline) p") auto
  also have "\<dots> \<le> length p" by (rule length_dropWhile_le)
  finally show "((tl (dropWhile (\<lambda>c. c \<noteq> newline) p), its), (p, its))
    \<in> measures [\<lambda>(p, its). length its, \<lambda>(p, its). length p]" by simp
qed auto

declare reader_lines.simps [simp del] complete_lines.simps [simp del] unfinished.simps [simp del]


section \<open>Example data\<close>

text \<open>A clock whose k-th reading is k+1: every reading differs from zero.\<close>

definition tick :: clock where
  "tick k = int k + 1"

text \<open>An environment with the three variables set, a caller's request, and the
  collaborators of a call whose endpoint answers with a given event stream. The decoder
  stands for \<^verbatim>\<open>json.loads\<close> and the lookup of the generated text: it accepts one body
  and raises on every other.\<close>

definition example_environ :: "string \<rightharpoonup> string" where
  "example_environ =
     [''AWS_ACCESS_KEY_ID'' \<mapsto> ''key'', ''AWS_SECRET_ACCESS_KEY'' \<mapsto> ''secret'',
      ''AWS_REGION_NAME'' \<mapsto> ''us-east-1'']"

definition example_externals :: "(string \<rightharpoonup> string) \<Rightarrow> item list \<Rightarrow> int externals" where
  "example_externals env stream =
     \<lparr>environ = env,
      invoke_endpoint_with_response_stream = (\<lambda>endpoint message. Inr stream),
      loads_content = (\<lambda>body. if body = ''[hi]'' then Inr ''hi'' else Inl ''Expecting value''),
      get_token_length = (\<lambda>s. Inr (length s)),
      monotonic = tick\<rparr>"

definition example_config :: "int RequestConfig" where
  "example_config =
     \<lparr>prompt = (''Hello'', 1), model = ''llama'',
      sampling_params = [''max_tokens'' \<mapsto> 50, ''temperature'' \<mapsto> 1]\<rparr>"


section \<open>One step of the reader\<close>

lemma readline_newline:
  "newline \<in> set p \<Longrightarrow> readline p = takeWhile (\<lambda>c. c \<noteq> newline) p @ [newline]"
  by (induction p) auto

lemma readline_no_newline: "newline \<notin> set p \<Longrightarrow> readline p = p"
  by (induction p) auto

lemma readline_complete_iff:
  "(readline p \<noteq> [] \<and> last (readline p) = newline) = (newline \<in> set p)"
proof (cases "newline \<in> set p")
  case True
  then show ?thesis by (simp add: readline_newline)
next
  case False
  then have "readline p = p" by (rule readline_no_newline)
  moreover have "\<not> (p \<noteq> [] \<and> last p = newline)"
    using False by (metis last_in_set)
  ultimately show ?thesis using False by simp
qed

lemma lone_byte_iff:
  "(drop r b \<noteq> [] \<and> int r = int (length b) - 1) = (length (drop r b) = 1)"
  by auto

lemma next_complete_line:
  assumes "newline \<in> set (drop (read_pos self) (buffer self))"
  shows "LineIterator_next clk self n =
    Some (Line (takeWhile (\<lambda>c. c \<noteq> newline) (drop (read_pos self) (buffer self)))
               (if ttft self = 0 then clk n else ttft self)
               (clk (if ttft self = 0 then Suc n else n)),
          self\<lparr>ttft := (if ttft self = 0 then clk n else ttft self),
                read_pos := read_pos self +
                  Suc (length (takeWhile (\<lambda>c. c \<noteq> newline) (drop (read_pos self) (buffer self))))\<rparr>,
          Suc (if ttft self = 0 then Suc n else n))"
  using assms
  by (subst LineIterator_next.simps) (simp add: readline_newline Let_def)

lemma next_lone_byte:
  assumes "newline \<notin> set (drop (read_pos self) (buffer self))"
    and "length (drop (read_pos self) (buffer self)) = 1"
  shows "LineIterator_next clk self n =
    Some (Line (drop (read_pos self) (buffer self)) (ttft self) (clk n),
          self\<lparr>read_pos := read_pos self + 1\<rparr>, Suc n)"
proof -
  let ?p = "drop (read_pos self) (buffer self)"
  have a: "readline ?p = ?p" using assms(1) by (rule readline_no_newline)
  have b: "(?p \<noteq> [] \<and> last ?p = newline) = False"
    using assms(1) readline_complete_iff [of ?p] by (simp only: a)
  have c: "(?p \<noteq> [] \<and> int (read_pos self) = int (length (buffer self)) - 1) = True"
    using assms(2) by (simp only: lone_byte_iff simp_thms)
  show ?thesis
    apply (subst LineIterator_next.simps)
    apply (simp only: a b c Let_def if_True if_False)
    apply simp
    done
qed

text \<open>When neither return is taken, the loop pulls from the transport.\<close>

lemma next_pull:
  assumes "newline \<notin> set (drop (read_pos self) (buffer self))"
    and "length (drop (read_pos self) (buffer self)) \<noteq> 1"
  shows "LineIterator_next clk self n =
    (case byte_iterator self of
       [] \<Rightarrow>
         if read_pos self < length (buffer self) then LineIterator_next clk self n
         else Some (StopIteration, self, n)
     | Throw e # rest \<Rightarrow> Some (Raised e, self\<lparr>byte_iterator := rest\<rparr>, n)
     | Yield chunk # rest \<Rightarrow>
         (case chunk of
            UnknownEvent _ \<Rightarrow> LineIterator_next clk (self\<lparr>byte_iterator := rest\<rparr>) n
          | PayloadPart bs \<Rightarrow>
              LineIterator_next clk (self\<lparr>byte_iterator := rest, buffer := buffer self @ bs\<rparr>) n))"
proof -
  let ?p = "drop (read_pos self) (buffer self)"
  have a: "readline ?p = ?p" using assms(1) by (rule readline_no_newline)
  have b: "(?p \<noteq> [] \<and> last ?p = newline) = False"
    using assms(1) readline_complete_iff [of ?p] by (simp only: a)
  have c: "(?p \<noteq> [] \<and> int (read_pos self) = int (length (buffer self)) - 1) = False"
    using assms(2) by (simp only: lone_byte_iff simp_thms)
  have h: "LineIterator_next clk self n =
    (case byte_iterator self of
       [] \<Rightarrow>
         if read_pos self < length (buffer self) then LineIterator_next clk self n
         else Some (StopIteration, self, n)
     | Throw e # rest \<Rightarrow> Some (Raised e, self\<lparr>byte_iterator := rest\<rparr>, n)
     | Yield chunk # rest \<Rightarrow>
         (let self1 = self\<lparr>byte_iterator := rest\<rparr> in
          case chunk of
            UnknownEvent _ \<Rightarrow> LineIterator_next clk self1 n
          | PayloadPart bs \<Rightarrow>
              LineIterator_next clk (self1\<lparr>buffer := buffer self1 @ bs\<rparr>) n))"
    by (subst LineIterator_next.simps) (simp only: a b c Let_def if_False)
  show ?thesis
    by (subst h) (simp add: Let_def split: list.split item.split chunk.split)
qed

lemma next_pull_unknown:
  assumes "newline \<notin> set (drop (read_pos self) (buffer self))"
    and "length (drop (read_pos self) (buffer self)) \<noteq> 1"
    and "byte_iterator self = Yield (UnknownEvent x) # rest"
  shows "LineIterator_next clk self n = LineIterator_next clk (self\<lparr>byte_iterator := rest\<rparr>) n"
  by (subst next_pull [OF assms(1,2)]) (simp add: assms(3))

lemma next_pull_payload:
  assumes "newline \<notin> set (drop (read_pos self) (buffer self))"
    and "length (drop (read_pos self) (buffer self)) \<noteq> 1"
    and "byte_iterator self = Yield (PayloadPart bs) # rest"
  shows "LineIterator_next clk self n =
         LineIterator_next clk (self\<lparr>byte_iterator := rest, buffer := buffer self @ bs\<rparr>) n"
  by (subst next_pull [OF assms(1,2)]) (simp add: assms(3))

lemma next_pull_throw:
  assumes "newline \<notin> set (drop (read_pos self) (buffer self))"
    and "length (drop (read_pos self) (buffer self)) \<noteq> 1"
    and "byte_iterator self = Throw e # rest"
  shows "LineIterator_next clk self n = Some (Raised e, self\<lparr>byte_iterator := rest\<rparr>, n)"
  by (subst next_pull [OF assms(1,2)]) (simp add: assms(3))

lemma next_pull_stop:
  assumes "drop (read_pos self) (buffer self) = []" and "byte_iterator self = []"
  shows "LineIterator_next clk self n = Some (StopIteration, self, n)"
proof -
  have "newline \<notin> set (drop (read_pos self) (buffer self))"
    and "length (drop (read_pos self) (buffer self)) \<noteq> 1"
    by (simp_all only: assms(1)) simp_all
  then show ?thesis using assms by (subst next_pull) simp_all
qed

lemma next_returns_not_stuck:
  assumes ret: "LineIterator_next clk self n = Some y"
  shows "\<not> (byte_iterator self = [] \<and> newline \<notin> set (drop (read_pos self) (buffer self))
      \<and> 2 \<le> length (drop (read_pos self) (buffer self)))"
proof (rule LineIterator_next.raw_induct
    [where P = "\<lambda>clk self n y. \<not> (byte_iterator self = []
        \<and> newline \<notin> set (drop (read_pos self) (buffer self))
        \<and> 2 \<le> length (drop (read_pos self) (buffer self)))", OF _ ret])
  fix f :: "clock \<Rightarrow> LineIterator \<Rightarrow> nat \<Rightarrow> (outcome \<times> LineIterator \<times> nat) option"
    and clk :: clock and self :: LineIterator and n :: nat
    and y :: "outcome \<times> LineIterator \<times> nat"
  let ?p = "drop (read_pos self) (buffer self)"
  let ?stuck = "byte_iterator self = [] \<and> newline \<notin> set ?p \<and> 2 \<le> length ?p"
  assume IH: "\<And>clk self n y. f clk self n = Some y \<Longrightarrow>
      \<not> (byte_iterator self = [] \<and> newline \<notin> set (drop (read_pos self) (buffer self))
        \<and> 2 \<le> length (drop (read_pos self) (buffer self)))"
  assume body: "(let line = readline ?p in
     if line \<noteq> [] \<and> last line = newline then
       (let (self1, n1) =
              (if ttft self = 0 then (self\<lparr>ttft := clk n\<rparr>, Suc n) else (self, n));
            self2 = self1\<lparr>read_pos := read_pos self1 + length line\<rparr>
        in Some (Line (butlast line) (ttft self2) (clk n1), self2, Suc n1))
     else if line \<noteq> [] \<and> int (read_pos self) = int (length (buffer self)) - 1 then
       (let self1 = self\<lparr>read_pos := read_pos self + 1\<rparr>
        in Some (Line line (ttft self1) (clk n), self1, Suc n))
     else
       (case byte_iterator self of
          [] \<Rightarrow>
            if read_pos self < length (buffer self) then f clk self n
            else Some (StopIteration, self, n)
        | Throw e # rest \<Rightarrow> Some (Raised e, self\<lparr>byte_iterator := rest\<rparr>, n)
        | Yield chunk # rest \<Rightarrow>
            (let self1 = self\<lparr>byte_iterator := rest\<rparr> in
             case chunk of
               UnknownEvent _ \<Rightarrow> f clk self1 n
             | PayloadPart bs \<Rightarrow> f clk (self1\<lparr>buffer := buffer self1 @ bs\<rparr>) n))) = Some y"
  show "\<not> ?stuck"
  proof
    assume st: ?stuck
    have a: "readline ?p = ?p" using st by (simp add: readline_no_newline)
    have b: "(?p \<noteq> [] \<and> last ?p = newline) = False"
      using st readline_complete_iff [of ?p] by (simp only: a)
    have c: "(?p \<noteq> [] \<and> int (read_pos self) = int (length (buffer self)) - 1) = False"
      using st by (simp only: lone_byte_iff) simp
    have "2 \<le> length (buffer self) - read_pos self" using st by simp
    then have d: "read_pos self < length (buffer self)" by arith
    have "f clk self n = Some y"
      using body st d by (simp only: a b c Let_def if_False) simp
    then show False using IH st by blast
  qed
qed

lemma next_stuck:
  assumes "byte_iterator self = []"
    and "newline \<notin> set (drop (read_pos self) (buffer self))"
    and "2 \<le> length (drop (read_pos self) (buffer self))"
  shows "LineIterator_next clk self n = None"
  using assms next_returns_not_stuck [of clk self n]
  by (cases "LineIterator_next clk self n") auto

lemma drain_cong:
  assumes "LineIterator_next clk a n = LineIterator_next clk b m"
  shows "drain clk a n = drain clk b m"
proof -
  have "drain clk a n = Option.bind (LineIterator_next clk b m) (\<lambda>(res, self', n').
      case res of
        StopIteration \<Rightarrow> Some ([], None)
      | Raised e \<Rightarrow> Some ([], Some e)
      | Line l tf tm \<Rightarrow>
          Option.bind (drain clk self' n') (\<lambda>(ls, e). Some ((l, tf, tm) # ls, e)))"
    by (subst drain.simps) (simp only: assms)
  also have "\<dots> = drain clk b m" by (rule drain.simps [symmetric])
  finally show ?thesis .
qed

lemma drain_line:
  assumes "LineIterator_next clk self n = Some (Line l tf tm, self', n')"
  shows "drain clk self n =
    Option.bind (drain clk self' n') (\<lambda>(ls, e). Some ((l, tf, tm) # ls, e))"
  by (subst drain.simps) (simp add: assms)

lemma drain_stop:
  assumes "LineIterator_next clk self n = Some (StopIteration, self', n')"
  shows "drain clk self n = Some ([], None)"
  by (subst drain.simps) (simp add: assms)

lemma drain_raised:
  assumes "LineIterator_next clk self n = Some (Raised e, self', n')"
  shows "drain clk self n = Some ([], Some e)"
  by (subst drain.simps) (simp add: assms)

lemma drain_never:
  assumes "LineIterator_next clk self n = None"
  shows "drain clk self n = None"
  by (subst drain.simps) (simp add: assms)

lemma lines_bind:
  "map_option (apfst (map fst)) (Option.bind r (\<lambda>(ls, e). Some ((l, tf, tm) # ls, e))) =
   map_option (apfst (Cons l)) (map_option (apfst (map fst)) r)"
  by (cases r) auto

lemma drop_past_line:
  assumes "newline \<in> set (drop r b)"
  shows "drop (r + Suc (length (takeWhile (\<lambda>c. c \<noteq> newline) (drop r b)))) b =
         tl (dropWhile (\<lambda>c. c \<noteq> newline) (drop r b))"
    and "r + Suc (length (takeWhile (\<lambda>c. c \<noteq> newline) (drop r b))) \<le> length b"
proof -
  let ?p = "drop r b" and ?P = "\<lambda>c. c \<noteq> newline"
  let ?k = "length (takeWhile ?P ?p)"
  have "drop (r + Suc ?k) b = drop (Suc ?k) ?p" by (simp add: add.commute)
  also have "\<dots> = tl (drop ?k ?p)" by (simp add: drop_Suc drop_tl)
  also have "drop ?k ?p = dropWhile ?P ?p" by (simp add: dropWhile_eq_drop)
  finally show "drop (r + Suc ?k) b = tl (dropWhile ?P ?p)" .
  have "dropWhile ?P ?p \<noteq> []" using assms by simp
  then have "Suc ?k \<le> length (takeWhile ?P ?p) + length (dropWhile ?P ?p)"
    by (cases "dropWhile ?P ?p") auto
  also have "\<dots> = length ?p"
    by (metis length_append takeWhile_dropWhile_id)
  finally have "Suc ?k \<le> length b - r" by simp
  moreover have "r < length b" using assms by (cases "r < length b") auto
  ultimately show "r + Suc ?k \<le> length b" by arith
qed

lemma drain_reader_lines_aux:
  assumes "p = drop (read_pos self) (buffer self)" and "its = byte_iterator self"
    and "read_pos self \<le> length (buffer self)"
  shows "map_option (apfst (map fst)) (drain clk self n) = reader_lines p its"
  using assms
proof (induction p its arbitrary: self n rule: reader_lines.induct)
  case (1 p its)
  let ?P = "\<lambda>c. c \<noteq> newline"
  note p = "1.prems"(1) and its = "1.prems"(2) and inv = "1.prems"(3)
  show ?case
  proof (cases "newline \<in> set p")
    case True
    let ?l = "takeWhile ?P p"
    let ?tf = "if ttft self = 0 then clk n else ttft self"
    let ?self' = "self\<lparr>ttft := ?tf, read_pos := read_pos self + Suc (length ?l)\<rparr>"
    let ?n' = "Suc (if ttft self = 0 then Suc n else n)"
    have nl: "newline \<in> set (drop (read_pos self) (buffer self))" using True p by simp
    have step: "LineIterator_next clk self n =
        Some (Line ?l ?tf (clk (if ttft self = 0 then Suc n else n)), ?self', ?n')"
      using next_complete_line [OF nl, of clk n] p by simp
    have pend: "tl (dropWhile ?P p) = drop (read_pos ?self') (buffer ?self')"
      using drop_past_line(1) [OF nl] p by simp
    have inv': "read_pos ?self' \<le> length (buffer ?self')"
      using drop_past_line(2) [OF nl] p by simp
    have its': "its = byte_iterator ?self'" using its by simp
    have "map_option (apfst (map fst)) (drain clk ?self' ?n') =
          reader_lines (tl (dropWhile ?P p)) its"
      by (rule "1.IH"(1) [OF True pend its' inv'])
    then show ?thesis
      using True
      by (subst drain_line [OF step], subst reader_lines.simps) (simp add: lines_bind)
  next
    case False
    have nnl: "newline \<notin> set (drop (read_pos self) (buffer self))" using False p by simp
    show ?thesis
    proof (cases "length p = 1")
      case True
      let ?self' = "self\<lparr>read_pos := read_pos self + 1\<rparr>"
      have one: "length (drop (read_pos self) (buffer self)) = 1" using True p by simp
      have step: "LineIterator_next clk self n = Some (Line p (ttft self) (clk n), ?self', Suc n)"
        using next_lone_byte [OF nnl one, of clk n] p by simp
      have pend: "[] = drop (read_pos ?self') (buffer ?self')" using one by simp
      have inv': "read_pos ?self' \<le> length (buffer ?self')" using one by simp
      have its': "its = byte_iterator ?self'" using its by simp
      have "map_option (apfst (map fst)) (drain clk ?self' (Suc n)) = reader_lines [] its"
        by (rule "1.IH"(2) [OF False True pend its' inv'])
      then show ?thesis
        using False True
        by (subst drain_line [OF step], subst reader_lines.simps) (simp add: lines_bind)
    next
      case notone: False
      have none: "length (drop (read_pos self) (buffer self)) \<noteq> 1" using notone p by simp
      note pull = next_pull [OF nnl none, of clk n]
      show ?thesis
      proof (cases its)
        case Nil
        show ?thesis
        proof (cases "p = []")
          case True
          then have "\<not> read_pos self < length (buffer self)" using p by simp
          then have "LineIterator_next clk self n = Some (StopIteration, self, n)"
            using pull Nil its by simp
          then have "drain clk self n = Some ([], None)" by (rule drain_stop)
          then show ?thesis using False notone Nil True
            by (subst reader_lines.simps) simp
        next
          case ne: False
          have "2 \<le> length (drop (read_pos self) (buffer self))"
            using ne none p by (cases p) auto
          then have "LineIterator_next clk self n = None"
            using next_stuck [of self clk n] nnl Nil its by simp
          then have "drain clk self n = None" by (rule drain_never)
          then show ?thesis using False notone Nil ne
            by (subst reader_lines.simps) simp
        qed
      next
        case (Cons i rest)
        show ?thesis
        proof (cases i)
          case (Throw e)
          have "LineIterator_next clk self n = Some (Raised e, self\<lparr>byte_iterator := rest\<rparr>, n)"
            using pull Cons Throw its by simp
          then have "drain clk self n = Some ([], Some e)" by (rule drain_raised)
          then show ?thesis using False notone Cons Throw
            by (subst reader_lines.simps) simp
        next
          case (Yield c)
          show ?thesis
          proof (cases c)
            case (UnknownEvent x)
            let ?self' = "self\<lparr>byte_iterator := rest\<rparr>"
            have "LineIterator_next clk self n = LineIterator_next clk ?self' n"
              using pull Cons Yield UnknownEvent its by simp
            then have d: "drain clk self n = drain clk ?self' n" by (rule drain_cong)
            have "map_option (apfst (map fst)) (drain clk ?self' n) = reader_lines p rest"
              using "1.IH"(4) [OF False notone Cons Yield UnknownEvent, of ?self' n] p inv
              by simp
            then show ?thesis using False notone Cons Yield UnknownEvent d
              by (subst reader_lines.simps) simp
          next
            case (PayloadPart bs)
            let ?self' = "self\<lparr>byte_iterator := rest, buffer := buffer self @ bs\<rparr>"
            have "LineIterator_next clk self n = LineIterator_next clk ?self' n"
              using pull Cons Yield PayloadPart its by simp
            then have d: "drain clk self n = drain clk ?self' n" by (rule drain_cong)
            have "map_option (apfst (map fst)) (drain clk ?self' n) = reader_lines (p @ bs) rest"
              using "1.IH"(3) [OF False notone Cons Yield PayloadPart, of ?self' n] p inv
              by simp
            then show ?thesis using False notone Cons Yield PayloadPart d
              by (subst reader_lines.simps) simp
          qed
        qed
      qed
    qed
  qed
qed

theorem drain_reader_lines:
  assumes "read_pos self \<le> length (buffer self)"
  shows "map_option (apfst (map fst)) (drain clk self n) =
         reader_lines (drop (read_pos self) (buffer self)) (byte_iterator self)"
  using assms by (rule drain_reader_lines_aux [OF refl refl])

section \<open>Lines of a byte sequence\<close>

lemma unfinished_no_newline [simp]: "newline \<notin> set (unfinished p)"
  by (induction p rule: unfinished.induct) (subst unfinished.simps, simp)

lemma unfinished_id: "newline \<notin> set p \<Longrightarrow> unfinished p = p"
  by (subst unfinished.simps) simp

lemma complete_lines_none: "newline \<notin> set p \<Longrightarrow> complete_lines p = []"
  by (subst complete_lines.simps) simp

lemma split_at_newline:
  assumes "newline \<in> set p"
  shows "p = takeWhile (\<lambda>c. c \<noteq> newline) p @ newline # tl (dropWhile (\<lambda>c. c \<noteq> newline) p)"
proof -
  let ?d = "dropWhile (\<lambda>c. c \<noteq> newline) p"
  have "?d \<noteq> []" using assms by simp
  moreover from this have "hd ?d = newline" using hd_dropWhile [of "\<lambda>c. c \<noteq> newline" p] by simp
  ultimately have "?d = newline # tl ?d" by (cases ?d) auto
  then show ?thesis by (metis takeWhile_dropWhile_id)
qed

lemma lines_rejoin: "with_delimiters (complete_lines p) @ unfinished p = p"
proof (induction p rule: complete_lines.induct)
  case (1 p)
  show ?case
  proof (cases "newline \<in> set p")
    case True
    let ?t = "tl (dropWhile (\<lambda>c. c \<noteq> newline) p)"
    have "with_delimiters (complete_lines p) @ unfinished p =
          takeWhile (\<lambda>c. c \<noteq> newline) p @ newline # (with_delimiters (complete_lines ?t) @ unfinished ?t)"
      using True
      by (subst complete_lines.simps, subst unfinished.simps) (simp add: with_delimiters_def)
    also have "\<dots> = takeWhile (\<lambda>c. c \<noteq> newline) p @ newline # ?t"
      using "1.IH" [OF True] by simp
    also have "\<dots> = p" using split_at_newline [OF True] by simp
    finally show ?thesis .
  next
    case False
    then show ?thesis by (simp add: complete_lines_none unfinished_id with_delimiters_def)
  qed
qed

lemma first_line_append:
  assumes "newline \<notin> set l"
  shows "takeWhile (\<lambda>c. c \<noteq> newline) (l @ newline # r) = l"
    and "tl (dropWhile (\<lambda>c. c \<noteq> newline) (l @ newline # r)) = r"
  using assms by (induction l) auto

lemma complete_lines_cons:
  assumes "newline \<notin> set l"
  shows "complete_lines (l @ newline # r) = l # complete_lines r"
  using first_line_append [OF assms, of r]
  by (subst complete_lines.simps) simp

lemma unfinished_cons:
  assumes "newline \<notin> set l"
  shows "unfinished (l @ newline # r) = unfinished r"
  using first_line_append [OF assms, of r]
  by (subst unfinished.simps) simp

lemma complete_lines_delimited:
  assumes "\<forall>l \<in> set ls. newline \<notin> set l"
  shows "complete_lines (with_delimiters ls @ q) = ls @ complete_lines q"
  using assms
proof (induction ls)
  case Nil
  then show ?case by (simp add: with_delimiters_def)
next
  case (Cons l ls)
  have "with_delimiters (l # ls) @ q = l @ newline # (with_delimiters ls @ q)"
    by (simp add: with_delimiters_def)
  then show ?case using Cons by (simp add: complete_lines_cons)
qed

lemma unfinished_delimited:
  assumes "\<forall>l \<in> set ls. newline \<notin> set l"
  shows "unfinished (with_delimiters ls @ q) = unfinished q"
  using assms
proof (induction ls)
  case Nil
  then show ?case by (simp add: with_delimiters_def)
next
  case (Cons l ls)
  have "with_delimiters (l # ls) @ q = l @ newline # (with_delimiters ls @ q)"
    by (simp add: with_delimiters_def)
  then show ?case using Cons by (simp add: unfinished_cons)
qed

lemma complete_lines_no_newline: "l \<in> set (complete_lines p) \<Longrightarrow> newline \<notin> set l"
proof (induction p rule: complete_lines.induct)
  case (1 p)
  show ?case
  proof (cases "newline \<in> set p")
    case True
    have "newline \<notin> set (takeWhile (\<lambda>c. c \<noteq> newline) p)"
      by (auto dest: set_takeWhileD)
    then show ?thesis using "1.IH" [OF True] "1.prems" True
      by (subst (asm) complete_lines.simps) auto
  next
    case False
    then show ?thesis using "1.prems" by (simp add: complete_lines_none)
  qed
qed

text \<open>Appending to a byte sequence only concerns its unfinished part.\<close>

lemma complete_lines_append:
  "complete_lines (p @ x) = complete_lines p @ complete_lines (unfinished p @ x)"
proof -
  have "complete_lines (p @ x) =
        complete_lines (with_delimiters (complete_lines p) @ (unfinished p @ x))"
    by (metis append.assoc lines_rejoin)
  also have "\<dots> = complete_lines p @ complete_lines (unfinished p @ x)"
    by (rule complete_lines_delimited) (simp add: complete_lines_no_newline)
  finally show ?thesis .
qed

lemma unfinished_append: "unfinished (p @ x) = unfinished (unfinished p @ x)"
proof -
  have "unfinished (p @ x) =
        unfinished (with_delimiters (complete_lines p) @ (unfinished p @ x))"
    by (metis append.assoc lines_rejoin)
  also have "\<dots> = unfinished (unfinished p @ x)"
    by (rule unfinished_delimited) (simp add: complete_lines_no_newline)
  finally show ?thesis .
qed

lemma no_lone_byte_unfinished: "no_lone_byte (unfinished p @ x) cs = no_lone_byte (p @ x) cs"
proof (induction cs arbitrary: x)
  case Nil
  then show ?case by simp
next
  case (Cons c cs)
  have "unfinished (unfinished p @ x) = unfinished (p @ x)"
    by (rule unfinished_append [symmetric])
  then show ?case using Cons [of "x @ payload_bytes c"] by simp
qed


section \<open>Whole runs\<close>

lemma reader_lines_emit:
  "reader_lines p its =
   map_option (apfst ((@) (complete_lines p))) (reader_lines (unfinished p) its)"
proof (induction p rule: complete_lines.induct)
  case (1 p)
  show ?case
  proof (cases "newline \<in> set p")
    case True
    let ?l = "takeWhile (\<lambda>c. c \<noteq> newline) p"
    let ?t = "tl (dropWhile (\<lambda>c. c \<noteq> newline) p)"
    have a: "reader_lines p its = map_option (apfst (Cons ?l)) (reader_lines ?t its)"
      using True by (subst reader_lines.simps) simp
    have b: "complete_lines p = ?l # complete_lines ?t"
      using True by (subst complete_lines.simps) simp
    have c: "unfinished p = unfinished ?t"
      using True by (subst unfinished.simps) simp
    show ?thesis
      unfolding a b c
      by (subst "1.IH" [OF True]) (cases "reader_lines (unfinished ?t) its"; auto)
  next
    case False
    then show ?thesis
      by (cases "reader_lines p its") (auto simp: complete_lines_none unfinished_id)
  qed
qed

lemma reader_lines_pull:
  assumes "newline \<notin> set q" and "length q \<noteq> 1"
  shows "reader_lines q (Yield c # its) = reader_lines (q @ payload_bytes c) its"
  using assms by (subst reader_lines.simps) (cases c; simp)

lemma reader_lines_end:
  assumes "newline \<notin> set q" and "length q \<le> 1"
  shows "reader_lines q [] = Some (if q = [] then [] else [q], None)"
proof (cases "q = []")
  case True
  then show ?thesis by (subst reader_lines.simps) simp
next
  case False
  then have one: "length q = 1" using assms(2) by (cases q) auto
  have "reader_lines [] [] = Some ([], None)" by (subst reader_lines.simps) simp
  then show ?thesis using False one assms(1) by (subst reader_lines.simps) simp
qed

theorem reader_lines_whole:
  assumes "no_lone_byte p cs" and "length (unfinished (p @ stream_bytes cs)) \<le> 1"
  shows "reader_lines p (map Yield cs) =
    Some (complete_lines (p @ stream_bytes cs) @
          (if unfinished (p @ stream_bytes cs) = [] then []
           else [unfinished (p @ stream_bytes cs)]), None)"
  using assms
proof (induction cs arbitrary: p)
  case Nil
  have "reader_lines (unfinished p) [] =
        Some (if unfinished p = [] then [] else [unfinished p], None)"
    using Nil.prems(2) by (intro reader_lines_end) (simp_all add: stream_bytes_def)
  then show ?case
    by (subst reader_lines_emit) (simp add: stream_bytes_def)
next
  case (Cons c cs)
  let ?q = "unfinished p"
  let ?S = "p @ stream_bytes (c # cs)"
  have sb: "stream_bytes (c # cs) = payload_bytes c @ stream_bytes cs"
    by (simp add: stream_bytes_def)
  have q1: "length ?q \<noteq> 1" and rest: "no_lone_byte (p @ payload_bytes c) cs"
    using Cons.prems(1) by simp_all
  have rest': "no_lone_byte (?q @ payload_bytes c) cs"
    using rest by (simp only: no_lone_byte_unfinished)
  have u: "unfinished ((?q @ payload_bytes c) @ stream_bytes cs) = unfinished ?S"
    using unfinished_append [of p "payload_bytes c @ stream_bytes cs"] by (simp add: sb)
  have len: "length (unfinished ((?q @ payload_bytes c) @ stream_bytes cs)) \<le> 1"
    using Cons.prems(2) by (simp only: u)
  have cl: "complete_lines ?S =
        complete_lines p @ complete_lines ((?q @ payload_bytes c) @ stream_bytes cs)"
    using complete_lines_append [of p "payload_bytes c @ stream_bytes cs"] by (simp add: sb)
  have "reader_lines p (map Yield (c # cs)) =
        map_option (apfst ((@) (complete_lines p))) (reader_lines ?q (Yield c # map Yield cs))"
    by (subst reader_lines_emit) simp
  also have "reader_lines ?q (Yield c # map Yield cs) =
        reader_lines (?q @ payload_bytes c) (map Yield cs)"
    using q1 by (intro reader_lines_pull) simp_all
  also have "\<dots> = Some (complete_lines ((?q @ payload_bytes c) @ stream_bytes cs) @
          (if unfinished ?S = [] then [] else [unfinished ?S]), None)"
    using Cons.IH [OF rest' len] by (simp only: u)
  finally show ?case by (simp add: cl)
qed

section \<open>Runs under any chunking\<close>

lemma split_at_newline_append:
  assumes "newline \<in> set p"
  shows "p @ x = takeWhile (\<lambda>c. c \<noteq> newline) p @
                 newline # (tl (dropWhile (\<lambda>c. c \<noteq> newline) p) @ x)"
proof -
  let ?l = "takeWhile (\<lambda>c. c \<noteq> newline) p" and ?t = "tl (dropWhile (\<lambda>c. c \<noteq> newline) p)"
  have "p @ x = (?l @ newline # ?t) @ x"
    using split_at_newline [OF assms] by (rule arg_cong [where f = "\<lambda>s. s @ x"])
  then show ?thesis by simp
qed

lemma takeWhile_no_newline: "newline \<notin> set (takeWhile (\<lambda>c. c \<noteq> newline) p)"
  by (induction p) auto

lemma unfinished_after_line:
  assumes "newline \<in> set p"
  shows "unfinished (tl (dropWhile (\<lambda>c. c \<noteq> newline) p) @ x) = unfinished (p @ x)"
proof -
  let ?l = "takeWhile (\<lambda>c. c \<noteq> newline) p" and ?t = "tl (dropWhile (\<lambda>c. c \<noteq> newline) p)"
  have "unfinished (?l @ newline # (?t @ x)) = unfinished (?t @ x)"
    by (rule unfinished_cons [OF takeWhile_no_newline])
  then show ?thesis by (simp only: split_at_newline_append [OF assms, symmetric])
qed

lemma unfinished_byte_before:
  assumes "b \<noteq> newline" and "newline \<in> set s"
  shows "unfinished (b # s) = unfinished s"
proof -
  have "unfinished (b # s) = unfinished (tl (dropWhile (\<lambda>c. c \<noteq> newline) s))"
    using assms by (subst unfinished.simps) simp
  also have "\<dots> = unfinished s" using assms(2) by (subst (2) unfinished.simps) simp
  finally show ?thesis .
qed

lemma filter_no_newline: "newline \<notin> set l \<Longrightarrow> filter (\<lambda>c. c \<noteq> newline) l = l"
  by (induction l) auto

lemma filter_newline_none: "newline \<notin> set l \<Longrightarrow> filter (\<lambda>c. c = newline) l = []"
  by (induction l) auto

lemma filter_after_line:
  assumes "newline \<in> set p"
  shows "filter (\<lambda>c. c \<noteq> newline) (p @ x) =
         takeWhile (\<lambda>c. c \<noteq> newline) p @
         filter (\<lambda>c. c \<noteq> newline) (tl (dropWhile (\<lambda>c. c \<noteq> newline) p) @ x)"
    and "length (filter (\<lambda>c. c = newline) (p @ x)) =
         Suc (length (filter (\<lambda>c. c = newline) (tl (dropWhile (\<lambda>c. c \<noteq> newline) p) @ x)))"
proof -
  let ?l = "takeWhile (\<lambda>c. c \<noteq> newline) p" and ?t = "tl (dropWhile (\<lambda>c. c \<noteq> newline) p)"
  have a: "filter (\<lambda>c. c \<noteq> newline) ?l = ?l"
    by (rule filter_no_newline [OF takeWhile_no_newline])
  have b: "filter (\<lambda>c. c = newline) ?l = []"
    by (rule filter_newline_none [OF takeWhile_no_newline])
  have "filter (\<lambda>c. c \<noteq> newline) (?l @ newline # (?t @ x)) =
        ?l @ filter (\<lambda>c. c \<noteq> newline) (?t @ x)"
    using a by simp
  then show "filter (\<lambda>c. c \<noteq> newline) (p @ x) = ?l @ filter (\<lambda>c. c \<noteq> newline) (?t @ x)"
    by (simp only: split_at_newline_append [OF assms, symmetric])
  have "length (filter (\<lambda>c. c = newline) (?l @ newline # (?t @ x))) =
         Suc (length (filter (\<lambda>c. c = newline) (?t @ x)))"
    using b by simp
  then show "length (filter (\<lambda>c. c = newline) (p @ x)) =
         Suc (length (filter (\<lambda>c. c = newline) (?t @ x)))"
    by (simp only: split_at_newline_append [OF assms, symmetric])
qed

lemma reader_lines_no_bytes:
  "stream_bytes cs = [] \<Longrightarrow> reader_lines [] (map Yield cs) = Some ([], None)"
proof (induction cs)
  case Nil
  show ?case by (subst reader_lines.simps) simp
next
  case (Cons c cs)
  then have e: "payload_bytes c = []" and r: "stream_bytes cs = []"
    by (simp_all add: stream_bytes_def)
  have "reader_lines [] (map Yield (c # cs)) = reader_lines ([] @ payload_bytes c) (map Yield cs)"
    using reader_lines_pull [of "[]" c "map Yield cs"] by simp
  then show ?case using Cons.IH [OF r] e by simp
qed

text \<open>Any chunking of a stream that ends properly: the run ends, nothing is lost.\<close>

lemma reader_lines_any_chunking:
  assumes "its = map Yield cs" and "length (unfinished (p @ stream_bytes cs)) \<le> 1"
  shows "\<exists>ls. reader_lines p its = Some (ls, None) \<and>
     concat ls = filter (\<lambda>c. c \<noteq> newline) (p @ stream_bytes cs) \<and>
     length (filter (\<lambda>c. c = newline) (p @ stream_bytes cs))
        + length (unfinished (p @ stream_bytes cs)) \<le> length ls \<and>
     (unfinished (p @ stream_bytes cs) \<noteq> [] \<longrightarrow>
        ls \<noteq> [] \<and> last ls = unfinished (p @ stream_bytes cs))"
  using assms
proof (induction p its arbitrary: cs rule: reader_lines.induct)
  case (1 p its)
  note its = "1.prems"(1) and fin = "1.prems"(2)
  let ?S = "p @ stream_bytes cs"
  show ?case
  proof (cases "newline \<in> set p")
    case True
    let ?l = "takeWhile (\<lambda>c. c \<noteq> newline) p" and ?t = "tl (dropWhile (\<lambda>c. c \<noteq> newline) p)"
    have u: "unfinished (?t @ stream_bytes cs) = unfinished ?S"
      using True by (rule unfinished_after_line)
    have fin': "length (unfinished (?t @ stream_bytes cs)) \<le> 1" using fin by (simp only: u)
    obtain ls where r: "reader_lines ?t its = Some (ls, None)"
      and c: "concat ls = filter (\<lambda>c. c \<noteq> newline) (?t @ stream_bytes cs)"
      and n: "length (filter (\<lambda>c. c = newline) (?t @ stream_bytes cs))
          + length (unfinished ?S) \<le> length ls"
      and l: "unfinished ?S \<noteq> [] \<longrightarrow> ls \<noteq> [] \<and> last ls = unfinished ?S"
      using "1.IH"(1) [OF True its fin'] by (auto simp only: u)
    have "reader_lines p its = Some (?l # ls, None)"
      using True r by (subst reader_lines.simps) simp
    moreover have "concat (?l # ls) = filter (\<lambda>c. c \<noteq> newline) ?S"
      using c filter_after_line(1) [OF True, of "stream_bytes cs"] by simp
    moreover have "length (filter (\<lambda>c. c = newline) ?S) + length (unfinished ?S) \<le> length (?l # ls)"
      using n filter_after_line(2) [OF True, of "stream_bytes cs"] by simp
    moreover have "unfinished ?S \<noteq> [] \<longrightarrow> ?l # ls \<noteq> [] \<and> last (?l # ls) = unfinished ?S"
      using l by simp
    ultimately show ?thesis by blast
  next
    case False
    show ?thesis
    proof (cases "length p = 1")
      case True
      then obtain b where p: "p = [b]" by (cases p) auto
      have bn: "b \<noteq> newline" using False p by simp
      have emit: "reader_lines p its = map_option (apfst (Cons p)) (reader_lines [] its)"
        using False True by (subst reader_lines.simps) simp
      have f1: "filter (\<lambda>c. c \<noteq> newline) ?S = p @ filter (\<lambda>c. c \<noteq> newline) (stream_bytes cs)"
        using bn p by simp
      have f2: "length (filter (\<lambda>c. c = newline) ?S) =
          length (filter (\<lambda>c. c = newline) (stream_bytes cs))"
        using bn p by simp
      show ?thesis
      proof (cases "newline \<in> set (stream_bytes cs)")
        case nl: True
        have u: "unfinished ?S = unfinished (stream_bytes cs)"
          using unfinished_byte_before [OF bn nl] p by simp
        have fin': "length (unfinished ([] @ stream_bytes cs)) \<le> 1" using fin u by simp
        obtain ls where r: "reader_lines [] its = Some (ls, None)"
          and c: "concat ls = filter (\<lambda>c. c \<noteq> newline) (stream_bytes cs)"
          and n: "length (filter (\<lambda>c. c = newline) (stream_bytes cs))
              + length (unfinished (stream_bytes cs)) \<le> length ls"
          and l: "unfinished (stream_bytes cs) \<noteq> [] \<longrightarrow>
              ls \<noteq> [] \<and> last ls = unfinished (stream_bytes cs)"
          using "1.IH"(2) [OF False True its fin'] by auto
        have "reader_lines p its = Some (p # ls, None)" using emit r by simp
        moreover have "concat (p # ls) = filter (\<lambda>c. c \<noteq> newline) ?S" using c f1 by simp
        moreover have "length (filter (\<lambda>c. c = newline) ?S) + length (unfinished ?S)
            \<le> length (p # ls)"
          using n by (simp only: f2 u) simp
        moreover have "unfinished ?S \<noteq> [] \<longrightarrow> p # ls \<noteq> [] \<and> last (p # ls) = unfinished ?S"
          using l by (simp only: u) simp
        ultimately show ?thesis by blast
      next
        case nonl: False
        have "unfinished ?S = ?S" using nonl False by (intro unfinished_id) simp
        then have e: "stream_bytes cs = []" and u: "unfinished ?S = p" using fin p by simp_all
        have "reader_lines [] its = Some ([], None)"
          using reader_lines_no_bytes [OF e] its by simp
        then have "reader_lines p its = Some ([p], None)" using emit by simp
        moreover have "concat [p] = filter (\<lambda>c. c \<noteq> newline) ?S" using f1 e by simp
        moreover have "length (filter (\<lambda>c. c = newline) ?S) + length (unfinished ?S)
            \<le> length [p]"
        proof -
          have "length (filter (\<lambda>c. c = newline) ?S) = 0" using f2 e by simp
          moreover have "length (unfinished ?S) = 1" using u True by simp
          ultimately show ?thesis by simp
        qed
        moreover have "unfinished ?S \<noteq> [] \<longrightarrow> [p] \<noteq> [] \<and> last [p] = unfinished ?S"
          by (simp only: u) simp
        ultimately show ?thesis by blast
      qed
    next
      case notone: False
      show ?thesis
      proof (cases cs)
        case Nil
        then have e: "stream_bytes cs = []" by (simp add: stream_bytes_def)
        have "unfinished p = p" using False by (rule unfinished_id)
        then have "length p \<le> 1" using fin e by simp
        then have pe: "p = []" using notone by (cases p) auto
        have "reader_lines p its = Some ([], None)"
          using pe its Nil by (subst reader_lines.simps) simp
        then show ?thesis using pe e by (simp add: unfinished_id)
      next
        case (Cons c cs')
        have its': "its = Yield c # map Yield cs'" using its Cons by simp
        have sb: "stream_bytes cs = payload_bytes c @ stream_bytes cs'"
          using Cons by (simp add: stream_bytes_def)
        have S: "(p @ payload_bytes c) @ stream_bytes cs' = ?S" by (simp add: sb)
        have fin': "length (unfinished ((p @ payload_bytes c) @ stream_bytes cs')) \<le> 1"
          using fin by (simp only: S)
        have step: "reader_lines p its = reader_lines (p @ payload_bytes c) (map Yield cs')"
          using reader_lines_pull [OF False notone, of c "map Yield cs'"] its' by simp
        have "\<exists>ls. reader_lines (p @ payload_bytes c) (map Yield cs') = Some (ls, None) \<and>
           concat ls = filter (\<lambda>c. c \<noteq> newline) ((p @ payload_bytes c) @ stream_bytes cs') \<and>
           length (filter (\<lambda>c. c = newline) ((p @ payload_bytes c) @ stream_bytes cs'))
              + length (unfinished ((p @ payload_bytes c) @ stream_bytes cs')) \<le> length ls \<and>
           (unfinished ((p @ payload_bytes c) @ stream_bytes cs') \<noteq> [] \<longrightarrow>
              ls \<noteq> [] \<and> last ls = unfinished ((p @ payload_bytes c) @ stream_bytes cs'))"
        proof (cases c)
          case (PayloadPart bs)
          show ?thesis
            using "1.IH"(3) [OF False notone its' refl PayloadPart refl] fin' PayloadPart
            by simp
        next
          case (UnknownEvent x)
          show ?thesis
            using "1.IH"(4) [OF False notone its' refl UnknownEvent refl] fin' UnknownEvent
            by simp
        qed
        then show ?thesis by (simp only: S step)
      qed
    qed
  qed
qed

section \<open>Unrecognized events\<close>

lemma drain_skips_unknown_aux:
  assumes "p = drop (read_pos self) (buffer self)"
    and "its = pre @ Yield (UnknownEvent x) # post"
    and "read_pos self \<le> length (buffer self)"
  shows "drain clk (self\<lparr>byte_iterator := its\<rparr>) n =
         drain clk (self\<lparr>byte_iterator := pre @ post\<rparr>) n"
  using assms
proof (induction p its arbitrary: self n pre rule: reader_lines.induct)
  case (1 p its)
  note p = "1.prems"(1) and its = "1.prems"(2) and inv = "1.prems"(3)
  let ?A = "self\<lparr>byte_iterator := its\<rparr>" and ?B = "self\<lparr>byte_iterator := pre @ post\<rparr>"
  have pA: "drop (read_pos ?A) (buffer ?A) = p" and pB: "drop (read_pos ?B) (buffer ?B) = p"
    using p by simp_all
  show ?case
  proof (cases "newline \<in> set p")
    case True
    let ?l = "takeWhile (\<lambda>c. c \<noteq> newline) p"
    let ?tf = "if ttft self = 0 then clk n else ttft self"
    let ?tm = "clk (if ttft self = 0 then Suc n else n)"
    let ?self' = "self\<lparr>ttft := ?tf, read_pos := read_pos self + Suc (length ?l)\<rparr>"
    let ?n' = "Suc (if ttft self = 0 then Suc n else n)"
    have nl: "newline \<in> set (drop (read_pos self) (buffer self))" using True p by simp
    have stepA: "LineIterator_next clk ?A n = Some (Line ?l ?tf ?tm, ?self'\<lparr>byte_iterator := its\<rparr>, ?n')"
      using next_complete_line [of ?A clk n] True by (simp only: pA) simp
    have stepB: "LineIterator_next clk ?B n = Some (Line ?l ?tf ?tm, ?self'\<lparr>byte_iterator := pre @ post\<rparr>, ?n')"
      using next_complete_line [of ?B clk n] True by (simp only: pB) simp
    have pend: "tl (dropWhile (\<lambda>c. c \<noteq> newline) p) = drop (read_pos ?self') (buffer ?self')"
      using drop_past_line(1) [OF nl] p by simp
    have inv': "read_pos ?self' \<le> length (buffer ?self')"
      using drop_past_line(2) [OF nl] p by simp
    have "drain clk (?self'\<lparr>byte_iterator := its\<rparr>) ?n' =
          drain clk (?self'\<lparr>byte_iterator := pre @ post\<rparr>) ?n'"
      by (rule "1.IH"(1) [OF True pend its inv'])
    then show ?thesis
      by (simp only: drain_line [OF stepA] drain_line [OF stepB])
  next
    case False
    show ?thesis
    proof (cases "length p = 1")
      case True
      let ?self' = "self\<lparr>read_pos := read_pos self + 1\<rparr>"
      have stepA: "LineIterator_next clk ?A n =
          Some (Line p (ttft self) (clk n), ?self'\<lparr>byte_iterator := its\<rparr>, Suc n)"
        using next_lone_byte [of ?A clk n] False True by (simp only: pA) simp
      have stepB: "LineIterator_next clk ?B n =
          Some (Line p (ttft self) (clk n), ?self'\<lparr>byte_iterator := pre @ post\<rparr>, Suc n)"
        using next_lone_byte [of ?B clk n] False True by (simp only: pB) simp
      have pend: "[] = drop (read_pos ?self') (buffer ?self')" using True p by simp
      have inv': "read_pos ?self' \<le> length (buffer ?self')" using True p by simp
      have "drain clk (?self'\<lparr>byte_iterator := its\<rparr>) (Suc n) =
            drain clk (?self'\<lparr>byte_iterator := pre @ post\<rparr>) (Suc n)"
        by (rule "1.IH"(2) [OF False True pend its inv'])
      then show ?thesis
        by (simp only: drain_line [OF stepA] drain_line [OF stepB])
    next
      case notone: False
      have nnlA: "newline \<notin> set (drop (read_pos ?A) (buffer ?A))"
        and neA: "length (drop (read_pos ?A) (buffer ?A)) \<noteq> 1"
        and nnlB: "newline \<notin> set (drop (read_pos ?B) (buffer ?B))"
        and neB: "length (drop (read_pos ?B) (buffer ?B)) \<noteq> 1"
        using False notone by (simp_all only: pA pB) simp_all
      show ?thesis
      proof (cases pre)
        case Nil
        have "LineIterator_next clk ?A n = LineIterator_next clk ?B n"
          using next_pull_unknown [OF nnlA neA, of x post clk n] its Nil by simp
        then show ?thesis by (rule drain_cong)
      next
        case (Cons i pre')
        let ?rest = "pre' @ Yield (UnknownEvent x) # post"
        have its': "its = i # ?rest" using its Cons by simp
        show ?thesis
        proof (cases i)
          case (Throw e)
          have "drain clk ?A n = Some ([], Some e)"
            using next_pull_throw [OF nnlA neA, of e ?rest clk n] its' Throw
            by (intro drain_raised) simp
          moreover have "drain clk ?B n = Some ([], Some e)"
            using next_pull_throw [OF nnlB neB, of e "pre' @ post" clk n] Cons Throw
            by (intro drain_raised) simp
          ultimately show ?thesis by simp
        next
          case (Yield c)
          show ?thesis
          proof (cases c)
            case (UnknownEvent y)
            have a: "drain clk ?A n = drain clk (self\<lparr>byte_iterator := ?rest\<rparr>) n"
              using next_pull_unknown [OF nnlA neA, of y ?rest clk n] its' Yield UnknownEvent
              by (intro drain_cong) simp
            have b: "drain clk ?B n = drain clk (self\<lparr>byte_iterator := pre' @ post\<rparr>) n"
              using next_pull_unknown [OF nnlB neB, of y "pre' @ post" clk n] Cons Yield UnknownEvent
              by (intro drain_cong) simp
            have "drain clk (self\<lparr>byte_iterator := ?rest\<rparr>) n =
                  drain clk (self\<lparr>byte_iterator := pre' @ post\<rparr>) n"
              by (rule "1.IH"(4) [OF False notone its' Yield UnknownEvent p refl inv])
            then show ?thesis by (simp only: a b)
          next
            case (PayloadPart bs)
            let ?self' = "self\<lparr>buffer := buffer self @ bs\<rparr>"
            have comm: "self\<lparr>byte_iterator := r, buffer := buffer self @ bs\<rparr> =
                ?self'\<lparr>byte_iterator := r\<rparr>" for r
              by (cases self) simp
            have a: "drain clk ?A n = drain clk (?self'\<lparr>byte_iterator := ?rest\<rparr>) n"
              using next_pull_payload [OF nnlA neA, of bs ?rest clk n] its' Yield PayloadPart
              by (intro drain_cong) (simp add: comm)
            have b: "drain clk ?B n = drain clk (?self'\<lparr>byte_iterator := pre' @ post\<rparr>) n"
              using next_pull_payload [OF nnlB neB, of bs "pre' @ post" clk n] Cons Yield PayloadPart
              by (intro drain_cong) (simp add: comm)
            have pend: "p @ bs = drop (read_pos ?self') (buffer ?self')" using p inv by simp
            have inv': "read_pos ?self' \<le> length (buffer ?self')" using inv by simp
            have "drain clk (?self'\<lparr>byte_iterator := ?rest\<rparr>) n =
                  drain clk (?self'\<lparr>byte_iterator := pre' @ post\<rparr>) n"
              by (rule "1.IH"(3) [OF False notone its' Yield PayloadPart pend refl inv'])
            then show ?thesis by (simp only: a b)
          qed
        qed
      qed
    qed
  qed
qed

lemma drain_skips_unknown:
  "drain clk (LineIterator_init (pre @ Yield (UnknownEvent x) # post)) n =
   drain clk (LineIterator_init (pre @ post)) n"
  using drain_skips_unknown_aux [of "[]" "LineIterator_init []" _ pre x post clk n]
  by (simp add: LineIterator_init_def)

section \<open>The driver's loop\<close>

lemma consume_cong:
  assumes "LineIterator_next clk a n = LineIterator_next clk b m"
  shows "consume_lines clk a n jb ts mr = consume_lines clk b m jb ts mr"
  by (subst consume_lines.simps, subst (2) consume_lines.simps) (simp only: assms)

lemma consume_line:
  assumes "LineIterator_next clk self n = Some (Line l tf tm, self', n')"
  shows "consume_lines clk self n jb ts mr =
    consume_lines clk self' (Suc (Suc n')) (jb @ l) (ts @ [clk n' - mr]) (clk (Suc n'))"
  by (subst consume_lines.simps) (simp add: assms)

lemma consume_stop:
  assumes "LineIterator_next clk self n = Some (StopIteration, self', n')"
  shows "consume_lines clk self n jb ts mr = Some (None, jb, ts, n')"
  by (subst consume_lines.simps) (simp add: assms)

lemma consume_raised:
  assumes "LineIterator_next clk self n = Some (Raised e, self', n')"
  shows "consume_lines clk self n jb ts mr = Some (Some e, jb, ts, n')"
  by (subst consume_lines.simps) (simp add: assms)

lemma consume_never:
  assumes "LineIterator_next clk self n = None"
  shows "consume_lines clk self n jb ts mr = None"
  by (subst consume_lines.simps) (simp add: assms)

text \<open>The driver's loop collects one timing per line the reader produces.\<close>

lemma consume_reader_lines_aux:
  assumes "p = drop (read_pos self) (buffer self)" and "its = byte_iterator self"
    and "read_pos self \<le> length (buffer self)"
  shows "case reader_lines p its of
           None \<Rightarrow> consume_lines clk self n jb ts mr = None
         | Some (ls, r) \<Rightarrow>
             (\<exists>ts' n'. consume_lines clk self n jb ts mr = Some (r, jb @ concat ls, ts @ ts', n')
                \<and> length ts' = length ls)"
  using assms
proof (induction p its arbitrary: self n jb ts mr rule: reader_lines.induct)
  case (1 p its)
  let ?P = "\<lambda>c. c \<noteq> newline"
  note p = "1.prems"(1) and its = "1.prems"(2) and inv = "1.prems"(3)
  have pS: "drop (read_pos self) (buffer self) = p" using p by simp
  show ?case
  proof (cases "newline \<in> set p")
    case True
    let ?l = "takeWhile ?P p"
    let ?tf = "if ttft self = 0 then clk n else ttft self"
    let ?self' = "self\<lparr>ttft := ?tf, read_pos := read_pos self + Suc (length ?l)\<rparr>"
    let ?n' = "Suc (if ttft self = 0 then Suc n else n)"
    have nl: "newline \<in> set (drop (read_pos self) (buffer self))" using True p by simp
    have step: "LineIterator_next clk self n =
        Some (Line ?l ?tf (clk (if ttft self = 0 then Suc n else n)), ?self', ?n')"
      using next_complete_line [OF nl, of clk n] p by simp
    have pend: "tl (dropWhile ?P p) = drop (read_pos ?self') (buffer ?self')"
      using drop_past_line(1) [OF nl] p by simp
    have inv': "read_pos ?self' \<le> length (buffer ?self')"
      using drop_past_line(2) [OF nl] p by simp
    have its': "its = byte_iterator ?self'" using its by simp
    have rl: "reader_lines p its = map_option (apfst (Cons ?l)) (reader_lines (tl (dropWhile ?P p)) its)"
      using True by (subst reader_lines.simps) simp
    note IH = "1.IH"(1) [OF True pend its' inv', of "Suc (Suc ?n')" "jb @ ?l" "ts @ [clk ?n' - mr]" "clk (Suc ?n')"]
    show ?thesis
      unfolding rl consume_line [OF step]
      using IH by (cases "reader_lines (tl (dropWhile ?P p)) its") auto
  next
    case False
    have nnl: "newline \<notin> set (drop (read_pos self) (buffer self))" using False p by simp
    show ?thesis
    proof (cases "length p = 1")
      case True
      let ?self' = "self\<lparr>read_pos := read_pos self + 1\<rparr>"
      have one: "length (drop (read_pos self) (buffer self)) = 1" using True p by simp
      have step: "LineIterator_next clk self n = Some (Line p (ttft self) (clk n), ?self', Suc n)"
        using next_lone_byte [OF nnl one, of clk n] p by simp
      have pend: "[] = drop (read_pos ?self') (buffer ?self')" using one by simp
      have inv': "read_pos ?self' \<le> length (buffer ?self')" using one by simp
      have its': "its = byte_iterator ?self'" using its by simp
      have rl: "reader_lines p its = map_option (apfst (Cons p)) (reader_lines [] its)"
        using False True by (subst reader_lines.simps) simp
      note IH = "1.IH"(2) [OF False True pend its' inv',
          of "Suc (Suc (Suc n))" "jb @ p" "ts @ [clk (Suc n) - mr]" "clk (Suc (Suc n))"]
      show ?thesis
        unfolding rl consume_line [OF step]
        using IH by (cases "reader_lines [] its") auto
    next
      case notone: False
      have none: "length (drop (read_pos self) (buffer self)) \<noteq> 1" using notone p by simp
      show ?thesis
      proof (cases its)
        case Nil
        show ?thesis
        proof (cases "p = []")
          case True
          have "LineIterator_next clk self n = Some (StopIteration, self, n)"
            using next_pull_stop [of self clk n] True pS Nil its by simp
          then have "consume_lines clk self n jb ts mr = Some (None, jb, ts, n)"
            by (rule consume_stop)
          then show ?thesis using False notone Nil True
            by (subst reader_lines.simps) simp
        next
          case ne: False
          have "2 \<le> length (drop (read_pos self) (buffer self))"
            using ne none p by (cases p) auto
          then have "LineIterator_next clk self n = None"
            using next_stuck [of self clk n] nnl Nil its by simp
          then have "consume_lines clk self n jb ts mr = None" by (rule consume_never)
          then show ?thesis using False notone Nil ne
            by (subst reader_lines.simps) simp
        qed
      next
        case (Cons i rest)
        have bi: "byte_iterator self = i # rest" using its Cons by simp
        show ?thesis
        proof (cases i)
          case (Throw e)
          have "LineIterator_next clk self n = Some (Raised e, self\<lparr>byte_iterator := rest\<rparr>, n)"
            using next_pull_throw [OF nnl none, of e rest clk n] bi Throw by simp
          then have "consume_lines clk self n jb ts mr = Some (Some e, jb, ts, n)"
            by (rule consume_raised)
          then show ?thesis using False notone Cons Throw
            by (subst reader_lines.simps) simp
        next
          case (Yield c)
          show ?thesis
          proof (cases c)
            case (UnknownEvent x)
            let ?self' = "self\<lparr>byte_iterator := rest\<rparr>"
            have "LineIterator_next clk self n = LineIterator_next clk ?self' n"
              using next_pull_unknown [OF nnl none, of x rest clk n] bi Yield UnknownEvent by simp
            then have d: "consume_lines clk self n jb ts mr = consume_lines clk ?self' n jb ts mr"
              by (rule consume_cong)
            have rl: "reader_lines p its = reader_lines p rest"
              using False notone Cons Yield UnknownEvent by (subst reader_lines.simps) simp
            show ?thesis
              unfolding rl d
              using "1.IH"(4) [OF False notone Cons Yield UnknownEvent, of ?self' n jb ts mr] p inv
              by simp
          next
            case (PayloadPart bs)
            let ?self' = "self\<lparr>byte_iterator := rest, buffer := buffer self @ bs\<rparr>"
            have "LineIterator_next clk self n = LineIterator_next clk ?self' n"
              using next_pull_payload [OF nnl none, of bs rest clk n] bi Yield PayloadPart by simp
            then have d: "consume_lines clk self n jb ts mr = consume_lines clk ?self' n jb ts mr"
              by (rule consume_cong)
            have rl: "reader_lines p its = reader_lines (p @ bs) rest"
              using False notone Cons Yield PayloadPart by (subst reader_lines.simps) simp
            show ?thesis
              unfolding rl d
              using "1.IH"(3) [OF False notone Cons Yield PayloadPart, of ?self' n jb ts mr] p inv
              by simp
          qed
        qed
      qed
    qed
  qed
qed

lemma consume_reader_lines:
  assumes "consume_lines clk (LineIterator_init stream) n jb ts mr = Some (r, jb', ts', n')"
  shows "\<exists>ls. reader_lines [] stream = Some (ls, r) \<and> jb' = jb @ concat ls
           \<and> length ts' = length ts + length ls"
  using consume_reader_lines_aux [of "[]" "LineIterator_init stream" stream clk n jb ts mr] assms
  by (cases "reader_lines [] stream") (auto simp: LineIterator_init_def)



section \<open>Evaluating the reader on concrete streams\<close>

lemma drain_unfold:
  "drain clk self n =
    (case LineIterator_next clk self n of
       None \<Rightarrow> None
     | Some (res, self', n') \<Rightarrow>
        (case res of
           StopIteration \<Rightarrow> Some ([], None)
         | Raised e \<Rightarrow> Some ([], Some e)
         | Line l tf tm \<Rightarrow> map_option (apfst (Cons (l, tf, tm))) (drain clk self' n')))"
proof -
  have m: "Option.bind r (\<lambda>(ls, e). Some (x # ls, e)) = map_option (apfst (Cons x)) r"
    for r :: "('a list \<times> 'b) option" and x
    by (cases r) auto
  show ?thesis
    by (subst drain.simps) (simp add: m split: option.split outcome.split prod.split)
qed

lemmas next_eval = next_complete_line next_lone_byte next_pull

lemma init_invariant: "read_pos (LineIterator_init s) \<le> length (buffer (LineIterator_init s))"
  by (simp add: LineIterator_init_def)

lemma drain_init_lines:
  "map_option (apfst (map fst)) (drain clk (LineIterator_init s) n) = reader_lines [] s"
  using drain_reader_lines [OF init_invariant, of clk s n] by (simp add: LineIterator_init_def)

lemma drain_whole:
  assumes "no_lone_byte [] cs" and "length (unfinished (stream_bytes cs)) \<le> 1"
  shows "\<exists>triples. drain clk (LineIterator_init (map Yield cs)) n = Some (triples, None) \<and>
     map fst triples = complete_lines (stream_bytes cs) @
        (if unfinished (stream_bytes cs) = [] then [] else [unfinished (stream_bytes cs)])"
proof -
  have "map_option (apfst (map fst)) (drain clk (LineIterator_init (map Yield cs)) n) =
      Some (complete_lines (stream_bytes cs) @
        (if unfinished (stream_bytes cs) = [] then [] else [unfinished (stream_bytes cs)]), None)"
    using reader_lines_whole [of "[]" cs] assms by (simp add: drain_init_lines)
  then show ?thesis by (cases "drain clk (LineIterator_init (map Yield cs)) n") auto
qed

lemma delimited_newlines:
  assumes "\<forall>l \<in> set ls. newline \<notin> set l" and "newline \<notin> set q"
  shows "length (filter (\<lambda>c. c = newline) (with_delimiters ls @ q)) = length ls"
    and "filter (\<lambda>c. c \<noteq> newline) (with_delimiters ls @ q) = concat ls @ q"
  using assms
  by (induction ls)
     (simp_all add: with_delimiters_def filter_no_newline filter_newline_none)

lemma drain_any_chunking:
  assumes "length (unfinished (stream_bytes cs)) \<le> 1"
  shows "\<exists>triples. drain clk (LineIterator_init (map Yield cs)) n = Some (triples, None) \<and>
     concat (map fst triples) = filter (\<lambda>c. c \<noteq> newline) (stream_bytes cs) \<and>
     length (filter (\<lambda>c. c = newline) (stream_bytes cs))
        + length (unfinished (stream_bytes cs)) \<le> length triples \<and>
     (unfinished (stream_bytes cs) \<noteq> [] \<longrightarrow>
        triples \<noteq> [] \<and> fst (last triples) = unfinished (stream_bytes cs))"
proof -
  obtain ls where r: "reader_lines [] (map Yield cs) = Some (ls, None)"
    and c: "concat ls = filter (\<lambda>c. c \<noteq> newline) (stream_bytes cs)"
    and n: "length (filter (\<lambda>c. c = newline) (stream_bytes cs))
        + length (unfinished (stream_bytes cs)) \<le> length ls"
    and l: "unfinished (stream_bytes cs) \<noteq> [] \<longrightarrow>
        ls \<noteq> [] \<and> last ls = unfinished (stream_bytes cs)"
    using reader_lines_any_chunking [OF refl, of "[]" cs] assms by auto
  obtain triples where d: "drain clk (LineIterator_init (map Yield cs)) n = Some (triples, None)"
    and m: "map fst triples = ls"
    using r drain_init_lines [of clk "map Yield cs" n]
    by (cases "drain clk (LineIterator_init (map Yield cs)) n") auto
  have "unfinished (stream_bytes cs) \<noteq> [] \<longrightarrow>
        triples \<noteq> [] \<and> fst (last triples) = unfinished (stream_bytes cs)"
  proof
    assume "unfinished (stream_bytes cs) \<noteq> []"
    then have ne: "ls \<noteq> []" and la: "last ls = unfinished (stream_bytes cs)" using l by simp_all
    have t: "triples \<noteq> []" using ne m by auto
    then have "fst (last triples) = last (map fst triples)" by (simp add: last_map)
    then show "triples \<noteq> [] \<and> fst (last triples) = unfinished (stream_bytes cs)"
      using t la m by simp
  qed
  moreover have "length triples = length ls" using m by (metis length_map)
  ultimately show ?thesis using d c n m by auto
qed

section \<open>The driver: configuration and payload\<close>

lemma send_llm_request_unconfigured:
  assumes "unset (environ ext) ''AWS_ACCESS_KEY_ID'' \<or> unset (environ ext) ''AWS_SECRET_ACCESS_KEY''
     \<or> unset (environ ext) ''AWS_REGION_NAME''"
  shows "\<exists>name. name \<in> {''AWS_ACCESS_KEY_ID'', ''AWS_SECRET_ACCESS_KEY'', ''AWS_REGION_NAME''} \<and>
     unset (environ ext) name \<and>
     send_llm_request ext rc n = Some (Inl (name @ '' must be set.''), rc, [], n)"
proof (cases "unset (environ ext) ''AWS_ACCESS_KEY_ID''")
  case True
  then have "send_llm_request ext rc n = Some (Inl (''AWS_ACCESS_KEY_ID'' @ '' must be set.''), rc, [], n)"
    by (simp add: send_llm_request_def)
  then show ?thesis using True by blast
next
  case a: False
  show ?thesis
  proof (cases "unset (environ ext) ''AWS_SECRET_ACCESS_KEY''")
    case True
    then have "send_llm_request ext rc n =
        Some (Inl (''AWS_SECRET_ACCESS_KEY'' @ '' must be set.''), rc, [], n)"
      using a by (simp add: send_llm_request_def)
    then show ?thesis using True by blast
  next
    case b: False
    then have c: "unset (environ ext) ''AWS_REGION_NAME''" using a assms by simp
    then have "send_llm_request ext rc n =
        Some (Inl (''AWS_REGION_NAME'' @ '' must be set.''), rc, [], n)"
      using a b by (simp add: send_llm_request_def)
    then show ?thesis using c by blast
  qed
qed

text \<open>What a configured call leaves behind, whatever the stream did.\<close>

lemma send_llm_request_configured:
  assumes "\<not> unset (environ ext) ''AWS_ACCESS_KEY_ID''"
    and "\<not> unset (environ ext) ''AWS_SECRET_ACCESS_KEY''"
    and "\<not> unset (environ ext) ''AWS_REGION_NAME''"
    and "send_llm_request ext rc n = Some (res, rc', acts, n')"
  shows "(\<exists>r. res = Inr r) \<and>
    rc' = rc\<lparr>sampling_params := rename_max_tokens (sampling_params rc)\<rparr> \<and>
    acts = [Client (environ ext ''AWS_REGION_NAME''),
            InvokeEndpoint (model rc)
              (build_message (fst (prompt rc)) (rename_max_tokens (sampling_params rc)))]"
  using assms
  by (auto simp: send_llm_request_def Let_def
      split: prod.splits sum.splits option.splits)



lemma rename_max_tokens_params:
  assumes "sp ''max_tokens'' = Some v"
  shows "rename_max_tokens sp ''max_new_tokens'' = Some v"
    and "rename_max_tokens sp ''max_tokens'' = None"
    and "k \<noteq> ''max_tokens'' \<Longrightarrow> k \<noteq> ''max_new_tokens'' \<Longrightarrow> rename_max_tokens sp k = sp k"
  using assms by (simp_all add: rename_max_tokens_def)

section \<open>Where the reader yields the lines of the stream\<close>

text \<open>
  The following lemmas delimit the behaviour of the single-byte return (lines 129 to 131):
  on every chunking that never leaves exactly one unfinished byte at a chunk boundary,
  the reader yields the lines of the stream, and on every chunking of a stream that ends
  with a newline or with one byte after its last newline it loses no byte.
\<close>

lemma lines_with_tail_byte:
  assumes "\<forall>s \<in> set segs. newline \<notin> set s" and "c \<noteq> newline"
    and "stream_bytes cs = with_delimiters segs @ [c]"
  shows "\<exists>triples. drain clk (LineIterator_init (map Yield cs)) n = Some (triples, None) \<and>
     triples \<noteq> [] \<and> fst (last triples) = [c] \<and> length segs + 1 \<le> length triples \<and>
     (no_lone_byte [] cs \<longrightarrow>
        map fst triples = segs @ [[c]] \<and> length triples = length segs + 1)"
proof -
  have cl: "complete_lines (stream_bytes cs) = segs"
    using assms(1,2) complete_lines_delimited [of segs "[c]"]
    by (simp add: assms(3) complete_lines_none)
  have un: "unfinished (stream_bytes cs) = [c]"
    using assms(1,2) unfinished_delimited [of segs "[c]"]
    by (simp add: assms(3) unfinished_id)
  have nls: "length (filter (\<lambda>c. c = newline) (stream_bytes cs)) = length segs"
    using delimited_newlines(1) [of segs "[c]"] assms(1,2) by (simp add: assms(3))
  obtain triples where d: "drain clk (LineIterator_init (map Yield cs)) n = Some (triples, None)"
    and ne: "triples \<noteq> []" and la: "fst (last triples) = [c]"
    and ge: "length segs + 1 \<le> length triples"
    using drain_any_chunking [of cs clk n] by (auto simp: un nls)
  have "map fst triples = segs @ [[c]] \<and> length triples = length segs + 1"
    if nlb: "no_lone_byte [] cs"
  proof -
    obtain triples' where d': "drain clk (LineIterator_init (map Yield cs)) n = Some (triples', None)"
      and m: "map fst triples' = segs @ [[c]]"
      using drain_whole [OF nlb, of clk n] by (auto simp: cl un)
    have e: "triples' = triples" using d d' by simp
    have "length (map fst triples) = length segs + 1" using m e by simp
    then show ?thesis using m e by simp
  qed
  then show ?thesis using d ne la ge by blast
qed

lemma line_across_chunks:
  assumes "read_pos self \<le> length (buffer self)"
    and "drop (read_pos self) (buffer self) = p"
    and "newline \<notin> set p" and "length p \<noteq> 1"
    and "byte_iterator self = Yield (PayloadPart a) # Yield (PayloadPart (b @ newline # further)) # rest"
    and "newline \<notin> set a" and "length (p @ a) \<noteq> 1"
    and "newline \<notin> set b"
  shows "LineIterator_next clk self n =
    Some (Line (p @ a @ b)
            (if ttft self = 0 then clk n else ttft self)
            (clk (if ttft self = 0 then Suc n else n)),
          self\<lparr>byte_iterator := rest,
               buffer := buffer self @ a @ b @ newline # further,
               ttft := (if ttft self = 0 then clk n else ttft self),
               read_pos := read_pos self + Suc (length (p @ a @ b))\<rparr>,
          Suc (if ttft self = 0 then Suc n else n))"
proof -
  let ?s1 = "self\<lparr>byte_iterator := Yield (PayloadPart (b @ newline # further)) # rest,
                   buffer := buffer self @ a\<rparr>"
  let ?s2 = "?s1\<lparr>byte_iterator := rest, buffer := buffer ?s1 @ b @ newline # further\<rparr>"
  have p1: "drop (read_pos ?s1) (buffer ?s1) = p @ a" using assms(1,2) by simp
  have p2: "drop (read_pos ?s2) (buffer ?s2) = (p @ a @ b) @ newline # further"
    using assms(1,2) by simp
  have "LineIterator_next clk self n = LineIterator_next clk ?s1 n"
    using assms(2-5) by (intro next_pull_payload) simp_all
  also have "\<dots> = LineIterator_next clk ?s2 n"
    using assms(3,6,7) by (intro next_pull_payload) (simp_all only: p1, simp_all)
  also have "\<dots> = Some (Line (takeWhile (\<lambda>c. c \<noteq> newline) (drop (read_pos ?s2) (buffer ?s2)))
               (if ttft ?s2 = 0 then clk n else ttft ?s2)
               (clk (if ttft ?s2 = 0 then Suc n else n)),
          ?s2\<lparr>ttft := (if ttft ?s2 = 0 then clk n else ttft ?s2),
                read_pos := read_pos ?s2 +
                  Suc (length (takeWhile (\<lambda>c. c \<noteq> newline) (drop (read_pos ?s2) (buffer ?s2))))\<rparr>,
          Suc (if ttft ?s2 = 0 then Suc n else n))"
    by (rule next_complete_line) (simp only: p2, simp)
  also have "takeWhile (\<lambda>c. c \<noteq> newline) (drop (read_pos ?s2) (buffer ?s2)) = p @ a @ b"
    using first_line_append(1) [of "p @ a @ b" further] assms(3,6,8) by (simp only: p2) simp
  finally show ?thesis by simp
qed

lemma round_trip:
  assumes "length (unfinished (stream_bytes cs)) \<le> 1"
  shows "\<exists>triples. drain clk (LineIterator_init (map Yield cs)) n = Some (triples, None) \<and>
     concat (map fst triples) = filter (\<lambda>c. c \<noteq> newline) (stream_bytes cs) \<and>
     (no_lone_byte [] cs \<longrightarrow>
       (if unfinished (stream_bytes cs) = []
        then with_delimiters (map fst triples) = stream_bytes cs
        else with_delimiters (butlast (map fst triples)) @ last (map fst triples)
               = stream_bytes cs))"
proof -
  obtain triples where d: "drain clk (LineIterator_init (map Yield cs)) n = Some (triples, None)"
    and c: "concat (map fst triples) = filter (\<lambda>c. c \<noteq> newline) (stream_bytes cs)"
    using drain_any_chunking [OF assms, of clk n] by blast
  have "if unfinished (stream_bytes cs) = []
      then with_delimiters (map fst triples) = stream_bytes cs
      else with_delimiters (butlast (map fst triples)) @ last (map fst triples)
             = stream_bytes cs"
    if nlb: "no_lone_byte [] cs"
  proof -
    obtain triples' where d': "drain clk (LineIterator_init (map Yield cs)) n = Some (triples', None)"
      and m': "map fst triples' = complete_lines (stream_bytes cs) @
        (if unfinished (stream_bytes cs) = [] then [] else [unfinished (stream_bytes cs)])"
      using drain_whole [OF nlb assms, of clk n] by blast
    have "triples' = triples" using d d' by simp
    then have m: "map fst triples = complete_lines (stream_bytes cs) @
        (if unfinished (stream_bytes cs) = [] then [] else [unfinished (stream_bytes cs)])"
      using m' by simp
    show ?thesis
    proof (cases "unfinished (stream_bytes cs) = []")
      case True
      then have "map fst triples = complete_lines (stream_bytes cs)" using m by simp
      moreover have "with_delimiters (complete_lines (stream_bytes cs)) = stream_bytes cs"
        using lines_rejoin [of "stream_bytes cs"] True by simp
      ultimately show ?thesis using True by simp
    next
      case False
      then have "map fst triples =
          complete_lines (stream_bytes cs) @ [unfinished (stream_bytes cs)]"
        using m by simp
      then show ?thesis using False lines_rejoin [of "stream_bytes cs"] by simp
    qed
  qed
  then show ?thesis using d c by blast
qed

section \<open>The claims\<close>

text \<open>
  C1. The claim: whenever the payload bytes are k newline-terminated segments followed by
  one tail byte, iterating the reader to exhaustion gives exactly k+1 lines. The
  single-byte return, written for the last \<open>]\<close> of the output, tests the end of the
  buffer and not the end of the stream: on the chunks \<open>a\<close>, \<open>b\<close> newline, \<open>]\<close>, whose
  bytes are the one segment \<open>ab\<close> and the tail byte, it fires on \<open>a\<close> and the reader
  gives three lines.
\<close>

theorem C1_extra_line_at_chunk_boundary:
  "stream_bytes [PayloadPart ''a'', PayloadPart (''b'' @ [newline]), PayloadPart '']'']
     = with_delimiters [''ab''] @ '']'' \<and>
   drain tick (LineIterator_init
     (map Yield [PayloadPart ''a'', PayloadPart (''b'' @ [newline]), PayloadPart '']''])) 0
     = Some ([(''a'', 0, 1), (''b'', 2, 3), ('']'', 2, 4)], None)"
  by (simp add: stream_bytes_def with_delimiters_def drain_unfold next_eval
      LineIterator_init_def tick_def)

text \<open>
  C2. The claim: the reader's ttft is assigned a nonzero timestamp when the first line is
  produced, whichever path produced it. The code assigns ttft on the newline path only
  (lines 124 and 125); the single-byte path (lines 129 to 131) returns without assigning
  it. On the stream of chunks \<open>[\<close> and \<open>x\<close> newline, the first line \<open>[\<close> is produced with
  ttft still 0, and ttft is assigned only when the second line is produced, although no
  reading of the clock is zero.
\<close>

theorem C2_first_line_without_ttft:
  "drain tick (LineIterator_init
     [Yield (PayloadPart ''[''), Yield (PayloadPart (''x'' @ [newline]))]) 0
   = Some ([(''['', 0, 1), (''x'', 2, 3)], None)"
  by (simp add: drain_unfold next_eval LineIterator_init_def tick_def)

text \<open>
  C3. The claim: after the transport is exhausted, asking for the next line eventually
  signals the end of the stream, also when two or further unconsumed bytes without a
  delimiter remain. On the single chunk \<open>ab\<close> the call of \<^verbatim>\<open>__next__\<close> never returns:
  \<^verbatim>\<open>StopIteration\<close> of the transport is caught, the cursor is before the end of the buffer,
  and the loop continues in the same state.
\<close>

theorem C3_next_never_returns:
  "LineIterator_next clk (LineIterator_init [Yield (PayloadPart ''ab'')]) n = None"
proof -
  let ?s = "\<lparr>byte_iterator = [], buffer = ''ab'', read_pos = 0, ttft = 0\<rparr>"
  have "LineIterator_next clk (LineIterator_init [Yield (PayloadPart ''ab'')]) n =
        LineIterator_next clk ?s n"
    by (subst next_pull_payload [of _ "''ab''" "[]"]) (simp_all add: LineIterator_init_def)
  also have "\<dots> = None" by (rule next_stuck) simp_all
  finally show ?thesis .
qed

text \<open>
  C4. The claim: a line that the first of two consecutive chunks leaves unfinished and the
  second completes is produced as one line, also when the unfinished portion is exactly
  one byte at the end of the buffer. On the chunks \<open>a\<close> and \<open>b\<close> newline the
  single-byte return fires on \<open>a\<close>, and the reader gives the two fragments \<open>a\<close> and
  \<open>b\<close> instead of the line \<open>ab\<close>.
\<close>

theorem C4_line_split_at_chunk_boundary:
  "drain tick (LineIterator_init
     [Yield (PayloadPart ''a''), Yield (PayloadPart (''b'' @ [newline]))]) 0
   = Some ([(''a'', 0, 1), (''b'', 2, 3)], None)"
  by (simp add: drain_unfold next_eval LineIterator_init_def tick_def)

text \<open>
  C5. The claim: the produced lines, with the newline put back after each, rebuild the
  payload bytes of every chunk sequence. On the chunks \<open>[\<close> and \<open>1\<close> newline the
  single-byte return fires on \<open>[\<close>: the lines are \<open>[\<close> and \<open>1\<close>, and with the
  newlines put back they are not the payload bytes.
\<close>

theorem C5_round_trip_broken:
  "drain tick (LineIterator_init
     (map Yield [PayloadPart ''['', PayloadPart (''1'' @ [newline])])) 0
     = Some ([(''['', 0, 1), (''1'', 2, 3)], None) \<and>
   with_delimiters (map fst [(''['', 0::int, 1::int), (''1'', 2, 3)])
     \<noteq> stream_bytes [PayloadPart ''['', PayloadPart (''1'' @ [newline])]"
  by (simp add: stream_bytes_def with_delimiters_def drain_unfold next_eval
      LineIterator_init_def tick_def)

text \<open>
  C9. An unrecognized event is skipped without a trace. When the reader pulls it, the
  call goes on exactly as it would from the same reader without the event: buffer,
  cursor and ttft are the ones before the pull. And for a whole stream, iterating the
  reader to exhaustion gives the same triples (lines, ttft values and timestamps) and
  the same end, with the event or without it, wherever it stands.
\<close>

theorem C9_unknown_event_skipped:
  "(newline \<notin> set (drop (read_pos self) (buffer self)) \<and>
    length (drop (read_pos self) (buffer self)) \<noteq> 1 \<and>
    byte_iterator self = Yield (UnknownEvent x) # rest \<longrightarrow>
      LineIterator_next clk self n = LineIterator_next clk (self\<lparr>byte_iterator := rest\<rparr>) n) \<and>
   drain clk (LineIterator_init (pre @ Yield (UnknownEvent x) # post)) n =
   drain clk (LineIterator_init (pre @ post)) n"
  using next_pull_unknown [of self x rest clk n] drain_skips_unknown [of clk pre x post n]
  by blast

theorem C9_unknown_event_skipped_witness:
  "LineIterator_next tick
     \<lparr>byte_iterator = [Yield (UnknownEvent ''ping''), Yield (PayloadPart (''cd'' @ [newline]))],
      buffer = ''ab'', read_pos = 0, ttft = 0\<rparr> 0 =
   Some (Line ''abcd'' 1 2,
     \<lparr>byte_iterator = [], buffer = ''abcd'' @ [newline], read_pos = 5, ttft = 1\<rparr>, 2) \<and>
   drain tick (LineIterator_init
     [Yield (PayloadPart ''ab''), Yield (UnknownEvent ''ping''), Yield (PayloadPart (''cd'' @ [newline]))]) 0
   = Some ([(''abcd'', 1, 2)], None)"
proof -
  let ?s = "\<lparr>byte_iterator = [Yield (UnknownEvent ''ping''), Yield (PayloadPart (''cd'' @ [newline]))],
      buffer = ''ab'', read_pos = 0, ttft = 0\<rparr>"
  note w = C9_unknown_event_skipped [of ?s "''ping''" "[Yield (PayloadPart (''cd'' @ [newline]))]"
      tick 0 "[Yield (PayloadPart ''ab'')]" "[Yield (PayloadPart (''cd'' @ [newline]))]"]
  have a: "LineIterator_next tick ?s 0 =
      LineIterator_next tick (?s\<lparr>byte_iterator := [Yield (PayloadPart (''cd'' @ [newline]))]\<rparr>) 0"
    using w by simp
  have b: "drain tick (LineIterator_init
     [Yield (PayloadPart ''ab''), Yield (UnknownEvent ''ping''), Yield (PayloadPart (''cd'' @ [newline]))]) 0
     = drain tick (LineIterator_init
     [Yield (PayloadPart ''ab''), Yield (PayloadPart (''cd'' @ [newline]))]) 0"
    using w by simp
  show ?thesis
    unfolding a b
    by (simp add: drain_unfold next_eval LineIterator_init_def tick_def)
qed





text \<open>
  C7 (amended). The test of the code is \<^verbatim>\<open>not os.environ.get(name)\<close>: a variable counts
  as missing when it is absent or set to the empty string. The variables are tested in
  the order access key, secret key, region; the call raises a configuration error naming
  the first missing one, before any outbound activity (no client is built, no request is
  sent) and without touching the caller's request or the clock. If all three are set to
  non-empty values, no configuration error is raised.
\<close>

theorem C7_configuration_check:
  "(unset (environ ext) ''AWS_ACCESS_KEY_ID'' \<longrightarrow>
      send_llm_request ext rc n = Some (Inl ''AWS_ACCESS_KEY_ID must be set.'', rc, [], n)) \<and>
   (\<not> unset (environ ext) ''AWS_ACCESS_KEY_ID'' \<and> unset (environ ext) ''AWS_SECRET_ACCESS_KEY'' \<longrightarrow>
      send_llm_request ext rc n = Some (Inl ''AWS_SECRET_ACCESS_KEY must be set.'', rc, [], n)) \<and>
   (\<not> unset (environ ext) ''AWS_ACCESS_KEY_ID'' \<and> \<not> unset (environ ext) ''AWS_SECRET_ACCESS_KEY''
      \<and> unset (environ ext) ''AWS_REGION_NAME'' \<longrightarrow>
      send_llm_request ext rc n = Some (Inl ''AWS_REGION_NAME must be set.'', rc, [], n)) \<and>
   (\<not> unset (environ ext) ''AWS_ACCESS_KEY_ID'' \<and> \<not> unset (environ ext) ''AWS_SECRET_ACCESS_KEY''
      \<and> \<not> unset (environ ext) ''AWS_REGION_NAME'' \<longrightarrow>
     (\<forall>msg rc' acts n'. send_llm_request ext rc n \<noteq> Some (Inl msg, rc', acts, n')))"
proof (intro conjI impI allI)
  assume "unset (environ ext) ''AWS_ACCESS_KEY_ID''"
  then show "send_llm_request ext rc n = Some (Inl ''AWS_ACCESS_KEY_ID must be set.'', rc, [], n)"
    by (simp add: send_llm_request_def)
next
  assume "\<not> unset (environ ext) ''AWS_ACCESS_KEY_ID'' \<and> unset (environ ext) ''AWS_SECRET_ACCESS_KEY''"
  then show "send_llm_request ext rc n =
      Some (Inl ''AWS_SECRET_ACCESS_KEY must be set.'', rc, [], n)"
    by (simp add: send_llm_request_def)
next
  assume "\<not> unset (environ ext) ''AWS_ACCESS_KEY_ID'' \<and> \<not> unset (environ ext) ''AWS_SECRET_ACCESS_KEY''
      \<and> unset (environ ext) ''AWS_REGION_NAME''"
  then show "send_llm_request ext rc n = Some (Inl ''AWS_REGION_NAME must be set.'', rc, [], n)"
    by (simp add: send_llm_request_def)
next
  fix msg rc' acts n'
  assume cfg: "\<not> unset (environ ext) ''AWS_ACCESS_KEY_ID'' \<and>
      \<not> unset (environ ext) ''AWS_SECRET_ACCESS_KEY'' \<and> \<not> unset (environ ext) ''AWS_REGION_NAME''"
  show "send_llm_request ext rc n \<noteq> Some (Inl msg, rc', acts, n')"
  proof
    assume "send_llm_request ext rc n = Some (Inl msg, rc', acts, n')"
    then have "\<exists>r. Inl msg = (Inr r :: string + RequestMetrics \<times> string)"
      using send_llm_request_configured [of ext rc n "Inl msg" rc' acts n'] cfg by blast
    then show False by simp
  qed
qed

theorem C7_configuration_check_witness:
  "send_llm_request (example_externals Map.empty []) example_config 0
     = Some (Inl ''AWS_ACCESS_KEY_ID must be set.'', example_config, [], 0) \<and>
   send_llm_request (example_externals (example_environ(''AWS_SECRET_ACCESS_KEY'' \<mapsto> [])) [])
      example_config 0
     = Some (Inl ''AWS_SECRET_ACCESS_KEY must be set.'', example_config, [], 0) \<and>
   send_llm_request (example_externals (example_environ(''AWS_REGION_NAME'' := None)) [])
      example_config 0
     = Some (Inl ''AWS_REGION_NAME must be set.'', example_config, [], 0) \<and>
   (\<forall>msg rc' acts n'.
      send_llm_request (example_externals example_environ []) example_config 0
        \<noteq> Some (Inl msg, rc', acts, n'))"
proof -
  note a = C7_configuration_check [of "example_externals Map.empty []" example_config 0]
  note b = C7_configuration_check
    [of "example_externals (example_environ(''AWS_SECRET_ACCESS_KEY'' \<mapsto> [])) []" example_config 0]
  note c = C7_configuration_check
    [of "example_externals (example_environ(''AWS_REGION_NAME'' := None)) []" example_config 0]
  note d = C7_configuration_check [of "example_externals example_environ []" example_config 0]
  have "send_llm_request (example_externals Map.empty []) example_config 0
     = Some (Inl ''AWS_ACCESS_KEY_ID must be set.'', example_config, [], 0)"
    using a by (simp add: example_externals_def unset_def)
  moreover have "send_llm_request
      (example_externals (example_environ(''AWS_SECRET_ACCESS_KEY'' \<mapsto> [])) []) example_config 0
     = Some (Inl ''AWS_SECRET_ACCESS_KEY must be set.'', example_config, [], 0)"
    using b by (simp add: example_externals_def example_environ_def unset_def)
  moreover have "send_llm_request
      (example_externals (example_environ(''AWS_REGION_NAME'' := None)) []) example_config 0
     = Some (Inl ''AWS_REGION_NAME must be set.'', example_config, [], 0)"
    using c by (simp add: example_externals_def example_environ_def unset_def)
  moreover have "\<forall>msg rc' acts n'.
      send_llm_request (example_externals example_environ []) example_config 0
        \<noteq> Some (Inl msg, rc', acts, n')"
    using d by (simp add: example_externals_def example_environ_def unset_def)
  ultimately show ?thesis by blast
qed

text \<open>
  The claim as stated fails: all three variables are present, the region is the empty
  string, and the configuration error is raised.
\<close>

theorem C7_counterexample:
  "(example_environ(''AWS_REGION_NAME'' \<mapsto> [])) ''AWS_ACCESS_KEY_ID'' = Some ''key'' \<and>
   (example_environ(''AWS_REGION_NAME'' \<mapsto> [])) ''AWS_SECRET_ACCESS_KEY'' = Some ''secret'' \<and>
   (example_environ(''AWS_REGION_NAME'' \<mapsto> [])) ''AWS_REGION_NAME'' = Some [] \<and>
   send_llm_request (example_externals (example_environ(''AWS_REGION_NAME'' \<mapsto> [])) [])
      example_config 0
     = Some (Inl ''AWS_REGION_NAME must be set.'', example_config, [], 0)"
  by (simp add: send_llm_request_def example_externals_def example_environ_def unset_def)



text \<open>
  C10 (amended). If the three configuration variables are set and the caller's sampling
  parameters hold \<open>max_tokens\<close> with value \<open>v\<close>, then whenever the call completes, the
  caller's own mapping has been changed by it: it no longer holds \<open>max_tokens\<close>, it
  holds \<open>max_new_tokens\<close> with value \<open>v\<close>, and every other key is as it was. A call that
  stops at the configuration check leaves the mapping as it was.
\<close>

theorem C10_caller_mapping_mutated:
  assumes "\<not> unset (environ ext) ''AWS_ACCESS_KEY_ID''"
    and "\<not> unset (environ ext) ''AWS_SECRET_ACCESS_KEY''"
    and "\<not> unset (environ ext) ''AWS_REGION_NAME''"
    and "sampling_params rc ''max_tokens'' = Some v"
    and "send_llm_request ext rc n = Some (res, rc', acts, n')"
  shows "sampling_params rc' ''max_tokens'' = None \<and>
    sampling_params rc' ''max_new_tokens'' = Some v \<and>
    (\<forall>k. k \<noteq> ''max_tokens'' \<and> k \<noteq> ''max_new_tokens'' \<longrightarrow>
       sampling_params rc' k = sampling_params rc k) \<and>
    prompt rc' = prompt rc \<and> model rc' = model rc"
proof -
  have "rc' = rc\<lparr>sampling_params := rename_max_tokens (sampling_params rc)\<rparr>"
    using send_llm_request_configured [OF assms(1-3) assms(5)] by blast
  then show ?thesis using rename_max_tokens_params [of "sampling_params rc" v] assms(4) by simp
qed

theorem C10_caller_mapping_mutated_witness:
  "\<exists>rc'. map_option (fst \<circ> snd) (send_llm_request
      (example_externals example_environ
         [Yield (PayloadPart (''[hi'' @ [newline])), Yield (PayloadPart '']'')])
      example_config 0) = Some rc' \<and>
    sampling_params rc' ''max_tokens'' = None \<and>
    sampling_params rc' ''max_new_tokens'' = Some 50 \<and>
    sampling_params rc' ''temperature'' = Some 1"
proof -
  let ?ext = "example_externals example_environ
      [Yield (PayloadPart (''[hi'' @ [newline])), Yield (PayloadPart '']'')]"
  obtain res rc' acts n' where
    run: "send_llm_request ?ext example_config 0 = Some (res, rc', acts, n')"
    by (simp add: send_llm_request_def example_externals_def example_environ_def
        example_config_def unset_def build_message_def consume_lines.simps next_eval
        LineIterator_init_def tick_def)
  have cfg: "\<not> unset (environ ?ext) ''AWS_ACCESS_KEY_ID''"
    "\<not> unset (environ ?ext) ''AWS_SECRET_ACCESS_KEY''"
    "\<not> unset (environ ?ext) ''AWS_REGION_NAME''"
    by (simp_all add: example_externals_def example_environ_def unset_def)
  have sp: "sampling_params example_config ''max_tokens'' = Some 50"
    by (simp add: example_config_def)
  from C10_caller_mapping_mutated [OF cfg sp run]
  show ?thesis using run by (simp add: example_config_def)
qed

text \<open>
  The claim as stated fails: with no configuration the call raises before the renaming,
  and the caller's mapping still holds \<open>max_tokens\<close> and not \<open>max_new_tokens\<close>.
\<close>

theorem C10_counterexample:
  "send_llm_request (example_externals Map.empty []) example_config 0
     = Some (Inl ''AWS_ACCESS_KEY_ID must be set.'', example_config, [], 0) \<and>
   sampling_params example_config ''max_tokens'' = Some 50 \<and>
   sampling_params example_config ''max_new_tokens'' = None"
  by (simp add: send_llm_request_def example_externals_def example_config_def unset_def)

end
